theory Spec2Isabelle
  imports Complex_Main "HOL-Library.Word" "HOL-Library.AList" "HOL-Library.Log_Nat"
begin

section \<open>Modelling conventions\<close>

text \<open>
  The development embeds the transport, clock-synchronisation and playout pipeline of
  the audio distribution program: \<^verbatim>\<open>config.ts\<close>, \<^verbatim>\<open>protocol.ts\<close>, \<^verbatim>\<open>sync.ts\<close>,
  \<^verbatim>\<open>audio.ts\<close> (the framer \<^verbatim>\<open>chunkStream\<close>), \<^verbatim>\<open>client.ts\<close> and \<^verbatim>\<open>server.ts\<close>.

  \<^item> A JavaScript \<^verbatim>\<open>number\<close> that carries a time or an offset is a finite IEEE 754
    double, held as the \<^typ>\<open>real\<close> it denotes. Every \<^verbatim>\<open>+\<close>, \<^verbatim>\<open>-\<close>, \<^verbatim>\<open>*\<close> and \<^verbatim>\<open>/\<close> on
    such numbers rounds its exact result to the nearest double, ties to the even
    significand, as the language does; comparisons are exact. Infinities, NaN and results
    of magnitude \<open>2\<^sup>1\<^sup>0\<^sup>2\<^sup>4\<close> or more are outside the model: the times are
    milliseconds read from a clock. Where the source can divide by zero the model says so
    with \<^const>\<open>None\<close>.
  \<^item> A \<^verbatim>\<open>number\<close> that carries a sequence number or a counter is an \<^typ>\<open>int\<close>.
  \<^item> A \<^verbatim>\<open>Uint8Array\<close> is a list of bytes.
  \<^item> Every call of \<^verbatim>\<open>now()\<close> is an explicit argument: the reading of the monotonic
    clock at that call.
  \<^item> Mutation of the client or server state is explicit state passing; console output
    is not modelled.
\<close>

type_synonym byte = "8 word"

section \<open>Configuration (\<^verbatim>\<open>config.ts\<close>)\<close>

definition CONFIG_sampleRate :: nat where "CONFIG_sampleRate = 48000"
definition CONFIG_channels :: nat where "CONFIG_channels = 2"
definition CONFIG_bitDepth :: nat where "CONFIG_bitDepth = 16"
definition CONFIG_chunkDurationMs :: nat where "CONFIG_chunkDurationMs = 20"

definition CONFIG_samplesPerChunk :: nat where
  "CONFIG_samplesPerChunk = (CONFIG_sampleRate * CONFIG_chunkDurationMs) div 1000"

text \<open>\<^verbatim>\<open>bitDepth / 8\<close> is the exact quotient 2 for the configured depth of 16.\<close>

definition CONFIG_bytesPerChunk :: nat where
  "CONFIG_bytesPerChunk = CONFIG_samplesPerChunk * CONFIG_channels * (CONFIG_bitDepth div 8)"

definition CONFIG_syncIntervalMs :: real where "CONFIG_syncIntervalMs = 1000"
definition CONFIG_syncSamples :: nat where "CONFIG_syncSamples = 5"
definition CONFIG_targetBufferMs :: real where "CONFIG_targetBufferMs = 60"
definition CONFIG_maxBufferMs :: real where "CONFIG_maxBufferMs = 200"

section \<open>Double-precision arithmetic\<close>

text \<open>
  Rounding of a real to the nearest integer, a tie going to the even one.
\<close>

definition roundEven :: "real \<Rightarrow> int" where
  "roundEven x =
     (let f = \<lfloor>x\<rfloor>; d = x - of_int f
      in if d < 1 / 2 then f
         else if d > 1 / 2 then f + 1
         else if even f then f else f + 1)"

text \<open>
  The binary exponent of a non-zero real: the \<open>e\<close> with \<open>2\<^sup>e \<le> |x| < 2\<^sup>e\<^sup>+\<^sup>1\<close>, computed
  from the bit length of the integer part of \<open>|x|\<close>, or of \<open>1 / |x|\<close> when \<open>|x| < 1\<close>.
\<close>

definition binade :: "real \<Rightarrow> int" where
  "binade x =
     (if 1 \<le> \<bar>x\<bar> then int (floorlog 2 (nat \<lfloor>\<bar>x\<bar>\<rfloor>)) - 1
      else - int (floorlog 2 (nat (\<lceil>1 / \<bar>x\<bar>\<rceil> - 1))))"

text \<open>
  The double nearest to a real. A double has a significand of 53 bits, so the doubles
  around \<open>x\<close> are the integer multiples of \<open>2\<^sup>e\<close> with \<open>e = binade x - 52\<close>; below the
  smallest normal double \<open>2\<^sup>-\<^sup>1\<^sup>0\<^sup>2\<^sup>2\<close> the spacing stays at \<open>2\<^sup>-\<^sup>1\<^sup>0\<^sup>7\<^sup>4\<close> (subnormal
  doubles).
\<close>

definition round64 :: "real \<Rightarrow> real" where
  "round64 x =
     (if x = 0 then 0
      else (let e = max (binade x - 52) (- 1074)
            in of_int (roundEven (x / 2 powi e)) * 2 powi e))"

text \<open>
  Half the spacing of the subnormal doubles, \<open>2\<^sup>-\<^sup>1\<^sup>0\<^sup>7\<^sup>5\<close>: the largest rounding error
  of a result that small.
\<close>

definition halfSubnormal :: real where
  "halfSubnormal = 2 powi (- 1075)"

text \<open>
  The arithmetic operators \<^verbatim>\<open>+\<close>, \<^verbatim>\<open>-\<close>, \<^verbatim>\<open>*\<close> and \<^verbatim>\<open>/\<close> of the language on doubles.
\<close>

definition fadd :: "real \<Rightarrow> real \<Rightarrow> real" where
  "fadd a b = round64 (a + b)"

definition fsub :: "real \<Rightarrow> real \<Rightarrow> real" where
  "fsub a b = round64 (a - b)"

definition fmul :: "real \<Rightarrow> real \<Rightarrow> real" where
  "fmul a b = round64 (a * b)"

definition fdiv :: "real \<Rightarrow> real \<Rightarrow> real" where
  "fdiv a b = round64 (a / b)"

section \<open>Protocol messages (\<^verbatim>\<open>protocol.ts\<close>)\<close>

record SyncResponse =
  t1 :: real
  t2 :: real
  t3 :: real

record AudioChunk =
  timestamp :: real
  sequence :: int
  data :: "byte list"

record ServerInfo =
  sampleRate :: nat
  channels :: nat
  bitDepth :: nat
  chunkDurationMs :: nat
  serverStartTime :: real

text \<open>
  The tagged union \<^verbatim>\<open>Message\<close>; the constructor is the \<^verbatim>\<open>type\<close> tag. A sync request
  carries \<^verbatim>\<open>t1\<close>, a ready message the \<^verbatim>\<open>clientId\<close>, an error its text.
\<close>

datatype Message =
    SYNC_REQUEST real
  | SYNC_RESPONSE SyncResponse
  | AUDIO_CHUNK AudioChunk
  | CLIENT_READY string
  | SERVER_INFO ServerInfo
  | ERROR string

section \<open>Clock synchronisation (\<^verbatim>\<open>sync.ts\<close>)\<close>

record SyncSample =
  sample_offset :: real
  sample_rtt :: real
  sample_timestamp :: real

text \<open>
  \<^verbatim>\<open>drift\<close> is \<^const>\<open>None\<close> when the regression of \<^verbatim>\<open>calculateDrift\<close> divides by zero
  (all sample timestamps equal), where JavaScript yields NaN or an infinity.
\<close>

record SyncState =
  offset :: real
  roundTripTime :: real
  drift :: "real option"
  samples :: "SyncSample list"
  lastSyncTime :: real
  isSynced :: bool

definition createSyncState :: SyncState where
  "createSyncState =
     \<lparr> offset = 0, roundTripTime = 0, drift = Some 0, samples = [],
       lastSyncTime = 0, isSynced = False \<rparr>"

text \<open>
  The loop of \<^verbatim>\<open>calculateWeightedOffset\<close>, carrying \<^verbatim>\<open>(totalWeight, weightedSum)\<close>. The
  literal \<^verbatim>\<open>0.1\<close> is the double nearest to one tenth.
\<close>

fun weightLoop :: "SyncSample list \<Rightarrow> real \<times> real \<Rightarrow> real \<times> real" where
  "weightLoop [] acc = acc"
| "weightLoop (sample # rest) (totalWeight, weightedSum) =
     (let weight = fdiv 1 (max (sample_rtt sample) (round64 (1 / 10)))
      in weightLoop rest (fadd totalWeight weight,
                          fadd weightedSum (fmul (sample_offset sample) weight)))"

definition calculateWeightedOffset :: "SyncSample list \<Rightarrow> real" where
  "calculateWeightedOffset smps =
     (if length smps = 0 then 0
      else if length smps = 1 then sample_offset (hd smps)
      else (let (totalWeight, weightedSum) = weightLoop smps (0, 0)
            in fdiv weightedSum totalWeight))"

text \<open>
  The loop of \<^verbatim>\<open>calculateDrift\<close>, carrying \<^verbatim>\<open>(sumX, sumY, sumXY, sumX2)\<close>.
\<close>

fun driftLoop :: "SyncSample list \<Rightarrow> real \<times> real \<times> real \<times> real \<Rightarrow> real \<times> real \<times> real \<times> real" where
  "driftLoop [] acc = acc"
| "driftLoop (sample # rest) (sumX, sumY, sumXY, sumX2) =
     (let x = sample_timestamp sample; y = sample_offset sample
      in driftLoop rest (fadd sumX x, fadd sumY y, fadd sumXY (fmul x y), fadd sumX2 (fmul x x)))"

definition calculateDrift :: "SyncSample list \<Rightarrow> real option" where
  "calculateDrift smps =
     (if length smps < 2 then Some 0
      else (let n = real (length smps);
                (sumX, sumY, sumXY, sumX2) = driftLoop smps (0, 0, 0, 0);
                denominator = fsub (fmul n sumX2) (fmul sumX sumX)
            in if denominator = 0 then None
               else Some (fmul (fdiv (fsub (fmul n sumXY) (fmul sumX sumY)) denominator) 1000)))"

text \<open>\<^verbatim>\<open>xs.slice(-k)\<close>: the last \<open>k\<close> elements, all of them when there are fewer.\<close>

definition sliceLast :: "nat \<Rightarrow> 'a list \<Rightarrow> 'a list" where
  "sliceLast k xs = drop (length xs - k) xs"

text \<open>
  The local constants \<^verbatim>\<open>rtt\<close> and \<^verbatim>\<open>offset\<close> of \<^verbatim>\<open>processSyncResponse\<close>, from the
  response and the reading \<open>t4\<close>.
\<close>

definition sampleRtt :: "SyncResponse \<Rightarrow> real \<Rightarrow> real" where
  "sampleRtt response t4 = fsub (fsub t4 (t1 response)) (fsub (t3 response) (t2 response))"

definition sampleOffset :: "SyncResponse \<Rightarrow> real \<Rightarrow> real" where
  "sampleOffset response t4 =
     fdiv (fadd (fsub (t2 response) (t1 response)) (fsub (t3 response) t4)) 2"

text \<open>
  \<^verbatim>\<open>processSyncResponse\<close> reads the clock three times: \<open>t4\<close> on entry, \<open>tSample\<close> for the
  sample's timestamp and \<open>tLast\<close> for \<^verbatim>\<open>lastSyncTime\<close>.
\<close>

definition processSyncResponse ::
  "SyncResponse \<Rightarrow> SyncState \<Rightarrow> real \<Rightarrow> real \<Rightarrow> real \<Rightarrow> SyncState" where
  "processSyncResponse response state t4 tSample tLast =
     (let rtt = sampleRtt response t4;
          offs = sampleOffset response t4;
          sample = \<lparr> sample_offset = offs, sample_rtt = rtt, sample_timestamp = tSample \<rparr>;
          smps = sliceLast CONFIG_syncSamples (samples state @ [sample])
      in \<lparr> offset = calculateWeightedOffset smps,
           roundTripTime = rtt,
           drift = calculateDrift smps,
           samples = smps,
           lastSyncTime = tLast,
           isSynced = True \<rparr>)"

definition toServerTime :: "real \<Rightarrow> SyncState \<Rightarrow> real" where
  "toServerTime localTime state = fadd localTime (offset state)"

definition toLocalTime :: "real \<Rightarrow> SyncState \<Rightarrow> real" where
  "toLocalTime serverTime state = fsub serverTime (offset state)"

definition needsResync :: "SyncState \<Rightarrow> real \<Rightarrow> bool" where
  "needsResync state tNow =
     (if \<not> isSynced state then True
      else fsub tNow (lastSyncTime state) > CONFIG_syncIntervalMs)"

section \<open>The sink (\<^verbatim>\<open>client.ts\<close>)\<close>

text \<open>
  A \<^verbatim>\<open>WebSocket\<close> as the sink sees it: its \<^verbatim>\<open>readyState\<close> and the messages handed to
  \<^verbatim>\<open>send\<close>, oldest first. An entry \<open>m\<close> of \<open>sent\<close> stands for the bytes
  \<^verbatim>\<open>encodeMessage(m)\<close>.
\<close>

datatype ReadyState = CONNECTING | OPEN | CLOSING | CLOSED

record WebSocket =
  readyState :: ReadyState
  sent :: "Message list"

record BufferedChunk =
  chunk :: AudioChunk
  playTime :: real

text \<open>
  \<^verbatim>\<open>playback\<close> is the playback process once started: the blocks written to it and whether
  it has been stopped.
\<close>

record AudioPlayback =
  written :: "byte list list"
  stopped :: bool

record ClientState =
  ws :: "WebSocket option"
  sync :: SyncState
  buffer :: "BufferedChunk list"
  playback :: "AudioPlayback option"
  serverInfo :: "ServerInfo option"
  isConnected :: bool
  isPlaying :: bool
  lastSequence :: int
  droppedChunks :: int
  lateChunks :: int
  pendingSyncT1 :: "real option"
  outputDevice :: "string option"

text \<open>The state \<^verbatim>\<open>startClient\<close> builds, with the socket it has just created.\<close>

definition initialClientState :: "string option \<Rightarrow> ClientState" where
  "initialClientState dev =
     \<lparr> ws = Some \<lparr> readyState = CONNECTING, sent = [] \<rparr>,
       sync = createSyncState,
       buffer = [],
       playback = None,
       serverInfo = None,
       isConnected = False,
       isPlaying = False,
       lastSequence = - 1,
       droppedChunks = 0,
       lateChunks = 0,
       pendingSyncT1 = None,
       outputDevice = dev \<rparr>"

text \<open>
  The binary search of \<^verbatim>\<open>insertSorted\<close>. \<^verbatim>\<open>(low + high) >>> 1\<close> is halving as long as
  the sum is below \<open>2\<^sup>3\<^sup>2\<close>, which it is for a buffer of fewer than \<open>2\<^sup>3\<^sup>1\<close> frames.
  \<^verbatim>\<open>midItem && \<dots>\<close> is false where \<^verbatim>\<open>buffer[mid]\<close> is undefined, that is out of range.
\<close>

function searchLoop :: "BufferedChunk list \<Rightarrow> BufferedChunk \<Rightarrow> nat \<Rightarrow> nat \<Rightarrow> nat" where
  "searchLoop buf item low high =
     (if low < high then
        (let mid = (low + high) div 2
         in if mid < length buf \<and> playTime (buf ! mid) < playTime item
            then searchLoop buf item (mid + 1) high
            else searchLoop buf item low mid)
      else low)"
  by pat_completeness auto
termination
  by (relation "measure (\<lambda>(buf, item, low, high). high - low)") auto

declare searchLoop.simps [simp del]

text \<open>\<^verbatim>\<open>buffer.splice(low, 0, item)\<close> puts \<open>item\<close> in front of position \<open>low\<close>.\<close>

definition insertSorted :: "BufferedChunk list \<Rightarrow> BufferedChunk \<Rightarrow> BufferedChunk list" where
  "insertSorted buf item =
     (let low = searchLoop buf item 0 (length buf)
      in take low buf @ [item] @ drop low buf)"

text \<open>
  The overflow loop at the end of \<^verbatim>\<open>handleAudioChunk\<close>: \<^verbatim>\<open>shift()\<close> removes the first
  frame, and each removal is counted in \<^verbatim>\<open>droppedChunks\<close>. The test for a missing first
  or last frame cannot fire on a non-empty array and is left out.
\<close>

function trimLoop :: "ClientState \<Rightarrow> ClientState" where
  "trimLoop state =
     (if length (buffer state) > 0 then
        (let lastChunk = last (buffer state);
             firstChunk = hd (buffer state)
         in if fsub (playTime lastChunk) (playTime firstChunk) \<le> CONFIG_maxBufferMs then state
            else trimLoop (state\<lparr> buffer := tl (buffer state),
                                   droppedChunks := droppedChunks state + 1 \<rparr>))
      else state)"
  by pat_completeness auto
termination
  by (relation "measure (\<lambda>state. length (buffer state))") auto

declare trimLoop.simps [simp del]

text \<open>The sequence-gap accounting at the head of \<^verbatim>\<open>handleAudioChunk\<close>.\<close>

definition accountGap :: "AudioChunk \<Rightarrow> ClientState \<Rightarrow> ClientState" where
  "accountGap c state =
     (if lastSequence state \<ge> 0 \<and> sequence c \<noteq> lastSequence state + 1 then
        (let gap = sequence c - lastSequence state - 1
         in if gap > 0 then state\<lparr> droppedChunks := droppedChunks state + gap \<rparr> else state)
      else state)"

text \<open>\<open>currentTime\<close> is the reading of \<^verbatim>\<open>now()\<close> taken after the sequence accounting.\<close>

definition handleAudioChunk :: "AudioChunk \<Rightarrow> real \<Rightarrow> ClientState \<Rightarrow> ClientState" where
  "handleAudioChunk c currentTime state =
     (if \<not> isSynced (sync state) then state
      else
        (let state1 = (accountGap c state)\<lparr> lastSequence := sequence c \<rparr>;
             pt = fadd (toLocalTime (timestamp c) (sync state1)) CONFIG_targetBufferMs
         in if pt < currentTime then state1\<lparr> lateChunks := lateChunks state1 + 1 \<rparr>
            else trimLoop
                   (state1\<lparr> buffer := insertSorted (buffer state1)
                                          \<lparr> chunk = c, playTime = pt \<rparr> \<rparr>)))"

definition wsSend :: "Message \<Rightarrow> WebSocket \<Rightarrow> WebSocket" where
  "wsSend m sock = sock\<lparr> sent := sent sock @ [m] \<rparr>"

text \<open>\<^verbatim>\<open>performSync\<close>; \<open>tNow\<close> is the reading taken by \<^verbatim>\<open>createSyncRequest\<close>.\<close>

definition performSync :: "real \<Rightarrow> ClientState \<Rightarrow> ClientState" where
  "performSync tNow state =
     (case ws state of
        None \<Rightarrow> state
      | Some sock \<Rightarrow>
          if readyState sock \<noteq> OPEN then state
          else state\<lparr> pendingSyncT1 := Some tNow,
                      ws := Some (wsSend (SYNC_REQUEST tNow) sock) \<rparr>)"

definition sendReady :: "ClientState \<Rightarrow> ClientState" where
  "sendReady state =
     (case ws state of
        None \<Rightarrow> state
      | Some sock \<Rightarrow>
          if readyState sock \<noteq> OPEN then state
          else state\<lparr> ws := Some (wsSend (CLIENT_READY ''client'') sock) \<rparr>)"

text \<open>
  \<^verbatim>\<open>handleMessage\<close> of the sink. \<open>clk k\<close> is the reading of the \<open>k\<close>-th call of
  \<^verbatim>\<open>now()\<close> that the handler makes (counting from 0).
\<close>

definition handleMessage :: "Message \<Rightarrow> (nat \<Rightarrow> real) \<Rightarrow> ClientState \<Rightarrow> ClientState" where
  "handleMessage message clk state =
     (case message of
        SERVER_INFO info \<Rightarrow> state\<lparr> serverInfo := Some info \<rparr>
      | SYNC_RESPONSE response \<Rightarrow>
          (if pendingSyncT1 state \<noteq> None then
             (let state1 = state\<lparr> sync := processSyncResponse response (sync state)
                                              (clk 0) (clk 1) (clk 2),
                                  pendingSyncT1 := None \<rparr>
              in if isSynced (sync state1) \<and> \<not> isPlaying state1 then sendReady state1
                 else state1)
           else state)
      | AUDIO_CHUNK c \<Rightarrow> handleAudioChunk c (clk 0) state
      | _ \<Rightarrow> state)"

text \<open>\<^verbatim>\<open>cleanup\<close>: stop the playback process and close the socket.\<close>

definition cleanup :: "ClientState \<Rightarrow> ClientState" where
  "cleanup state =
     state\<lparr> playback := map_option (\<lambda>p. p\<lparr> stopped := True \<rparr>) (playback state),
            ws := map_option (\<lambda>sock. if readyState sock = CLOSED then sock
                                       else sock\<lparr> readyState := CLOSING \<rparr>) (ws state) \<rparr>"

text \<open>
  The callbacks \<^verbatim>\<open>startClient\<close> installs. The runtime sets the socket's \<^verbatim>\<open>readyState\<close>
  before it calls \<^verbatim>\<open>onopen\<close> and \<^verbatim>\<open>onclose\<close>. \<open>Interval tCheck tSync\<close> is one firing
  of the resync timer: \<open>tCheck\<close> is read by \<^verbatim>\<open>needsResync\<close>, \<open>tSync\<close> by
  \<^verbatim>\<open>performSync\<close>. The playout loop, which only removes frames from the front of the
  buffer, is not part of this model.
\<close>

datatype ClientEvent =
    OnOpen real
  | OnMessage Message "nat \<Rightarrow> real"
  | OnClose
  | Interval real real

definition setReadyState :: "ReadyState \<Rightarrow> ClientState \<Rightarrow> ClientState" where
  "setReadyState r state = state\<lparr> ws := map_option (\<lambda>sock. sock\<lparr> readyState := r \<rparr>) (ws state) \<rparr>"

fun clientEvent :: "ClientEvent \<Rightarrow> ClientState \<Rightarrow> ClientState" where
  "clientEvent (OnOpen tNow) state =
     performSync tNow ((setReadyState OPEN state)\<lparr> isConnected := True \<rparr>)"
| "clientEvent (OnMessage message clk) state = handleMessage message clk state"
| "clientEvent OnClose state =
     cleanup ((setReadyState CLOSED state)\<lparr> isConnected := False \<rparr>)"
| "clientEvent (Interval tCheck tSync) state =
     (if needsResync (sync state) tCheck then performSync tSync state else state)"

definition clientRun :: "ClientEvent list \<Rightarrow> ClientState \<Rightarrow> ClientState" where
  "clientRun evs state = fold clientEvent evs state"

section \<open>The framer (\<^verbatim>\<open>chunkStream\<close> in \<^verbatim>\<open>audio.ts\<close>)\<close>

text \<open>
  The capture stream is the list of the values its reader returns before it reports
  \<^verbatim>\<open>done\<close>; the generator's result is the list of the blocks it yields.

  The inner loop \<^verbatim>\<open>while (buffer.length >= chunkSize)\<close> returns the blocks it yields and
  the buffer it leaves. With \<open>chunkSize = 0\<close> it never exits, which is the value
  \<^const>\<open>None\<close>.
\<close>

partial_function (option) sliceLoop :: "nat \<Rightarrow> byte list \<Rightarrow> (byte list list \<times> byte list) option" where
  "sliceLoop chunkSize buf =
     (if length buf \<ge> chunkSize then
        Option.bind (sliceLoop chunkSize (drop chunkSize buf))
          (\<lambda>(ys, rest). Some (take chunkSize buf # ys, rest))
      else Some ([], buf))"

text \<open>The outer loop \<^verbatim>\<open>while (true)\<close> over the reads, carrying \<^verbatim>\<open>buffer\<close>.\<close>

fun readLoop :: "nat \<Rightarrow> byte list \<Rightarrow> byte list list \<Rightarrow> byte list list option" where
  "readLoop chunkSize buf [] = Some (if length buf > 0 then [buf] else [])"
| "readLoop chunkSize buf (v # reads) =
     Option.bind (sliceLoop chunkSize (buf @ v))
       (\<lambda>(ys, rest). Option.bind (readLoop chunkSize rest reads) (\<lambda>zs. Some (ys @ zs)))"

definition chunkStream :: "byte list list \<Rightarrow> nat \<Rightarrow> byte list list option" where
  "chunkStream strm chunkSize = readLoop chunkSize [] strm"

text \<open>
  The framing as the specification words it: blocks of \<open>n\<close> bytes in source order, a
  trailing partial block emitted as it is.
\<close>

function blocks :: "nat \<Rightarrow> 'a list \<Rightarrow> 'a list list" where
  "blocks n xs = (if n = 0 \<or> xs = [] then [] else take n xs # blocks n (drop n xs))"
  by pat_completeness auto
termination
  by (relation "measure (\<lambda>(n, xs). length xs)") auto

declare blocks.simps [simp del]

section \<open>The source (\<^verbatim>\<open>server.ts\<close>)\<close>

text \<open>
  A server-side socket is named by its \<^verbatim>\<open>ws.data.id\<close>. \<open>sockets st w\<close> lists the messages
  handed to \<^verbatim>\<open>send\<close> on socket \<open>w\<close>, oldest first; an entry \<open>m\<close> stands for the bytes
  \<^verbatim>\<open>encodeMessage(m)\<close>. \<^verbatim>\<open>send\<close> is taken to succeed, and distinct connections to have
  distinct ids. The table \<^verbatim>\<open>clients\<close> is a JavaScript \<^verbatim>\<open>Map\<close>: an association list in
  insertion order. \<^verbatim>\<open>stopServer\<close>, which nothing in the program calls, is left out, so
  \<^verbatim>\<open>isRunning\<close> stays as \<^verbatim>\<open>startServer\<close> sets it.
\<close>

record Client =
  client_id :: string
  client_ws :: string
  isReady :: bool

record AudioCapture =
  stream :: "byte list list"
  killed :: bool

record ServerState =
  clients :: "(string \<times> Client) list"
  capture :: "AudioCapture option"
  server_sequence :: int
  server_startTime :: real
  isRunning :: bool
  sockets :: "string \<Rightarrow> Message list"

text \<open>The state \<^verbatim>\<open>startServer\<close> builds; \<open>t0\<close> is its reading of the clock.\<close>

definition initialServerState :: "real \<Rightarrow> ServerState" where
  "initialServerState t0 =
     \<lparr> clients = [], capture = None, server_sequence = 0, server_startTime = t0,
       isRunning = True, sockets = (\<lambda>w. []) \<rparr>"

definition send :: "string \<Rightarrow> Message \<Rightarrow> ServerState \<Rightarrow> ServerState" where
  "send w m st = st\<lparr> sockets := (sockets st)(w := sockets st w @ [m]) \<rparr>"

text \<open>The \<^verbatim>\<open>open\<close> callback for a connection whose id is \<open>cid\<close>.\<close>

definition onOpen :: "string \<Rightarrow> ServerState \<Rightarrow> ServerState" where
  "onOpen cid st =
     (let client = \<lparr> client_id = cid, client_ws = cid, isReady = False \<rparr>;
          st1 = st\<lparr> clients := AList.update cid client (clients st) \<rparr>;
          info = \<lparr> sampleRate = CONFIG_sampleRate, channels = CONFIG_channels,
                   bitDepth = CONFIG_bitDepth, chunkDurationMs = CONFIG_chunkDurationMs,
                   serverStartTime = server_startTime st1 \<rparr>
      in send cid (SERVER_INFO info) st1)"

definition onClose :: "string \<Rightarrow> ServerState \<Rightarrow> ServerState" where
  "onClose cid st = st\<lparr> clients := AList.delete cid (clients st) \<rparr>"

text \<open>\<^verbatim>\<open>processSyncRequest\<close> of \<^verbatim>\<open>sync.ts\<close>, with its two clock readings.\<close>

definition processSyncRequest :: "real \<Rightarrow> real \<Rightarrow> real \<Rightarrow> Message" where
  "processSyncRequest request_t1 tRecv tSend =
     SYNC_RESPONSE \<lparr> t1 = request_t1, t2 = tRecv, t3 = tSend \<rparr>"

text \<open>
  \<^verbatim>\<open>handleMessage\<close> of the source, for a message that arrived on socket \<open>w\<close>.
\<close>

definition handleMessage_server ::
  "string \<Rightarrow> Message \<Rightarrow> real \<Rightarrow> real \<Rightarrow> ServerState \<Rightarrow> ServerState" where
  "handleMessage_server w message tRecv tSend st =
     (case message of
        SYNC_REQUEST request_t1 \<Rightarrow> send w (processSyncRequest request_t1 tRecv tSend) st
      | CLIENT_READY cid \<Rightarrow>
          (case map_of (clients st) w of
             Some client \<Rightarrow>
               st\<lparr> clients := AList.update w (client\<lparr> isReady := True \<rparr>) (clients st) \<rparr>
           | None \<Rightarrow> st)
      | _ \<Rightarrow> st)"

text \<open>The inner loop of \<^verbatim>\<open>processAudioStream\<close> over \<^verbatim>\<open>state.clients.values()\<close>.\<close>

fun sendToReady :: "Message \<Rightarrow> (string \<times> Client) list \<Rightarrow> ServerState \<Rightarrow> ServerState" where
  "sendToReady m [] st = st"
| "sendToReady m ((k, client) # rest) st =
     sendToReady m rest (if isReady client then send (client_ws client) m st else st)"

text \<open>
  One pass through the body of the \<^verbatim>\<open>for await\<close> loop once the running check has
  passed, for the block \<open>pcmData\<close> and the clock reading \<open>tNow\<close>.
\<close>

definition broadcastChunk :: "byte list \<Rightarrow> real \<Rightarrow> ServerState \<Rightarrow> ServerState" where
  "broadcastChunk pcmData tNow st =
     (let c = \<lparr> timestamp = tNow, sequence = server_sequence st, data = pcmData \<rparr>;
          st1 = st\<lparr> server_sequence := server_sequence st + 1 \<rparr>
      in sendToReady (AUDIO_CHUNK c) (clients st1) st1)"

text \<open>
  The \<^verbatim>\<open>for await\<close> loop over the framer's blocks; \<open>clk i\<close> is the clock reading of
  pass \<open>i\<close>. The loop is left when \<^verbatim>\<open>isRunning\<close> is false.
\<close>

fun streamLoop :: "(nat \<Rightarrow> real) \<Rightarrow> nat \<Rightarrow> byte list list \<Rightarrow> ServerState \<Rightarrow> ServerState" where
  "streamLoop clk i [] st = st"
| "streamLoop clk i (pcmData # rest) st =
     (if \<not> isRunning st then st
      else streamLoop clk (Suc i) rest (broadcastChunk pcmData (clk i) st))"

definition stopCapture :: "ServerState \<Rightarrow> ServerState" where
  "stopCapture st = st\<lparr> capture := map_option (\<lambda>cap. cap\<lparr> killed := True \<rparr>) (capture st) \<rparr>"

text \<open>
  \<^verbatim>\<open>processAudioStream\<close>, run without other callbacks in between. The result is
  \<^const>\<open>None\<close> if the framer does not terminate.
\<close>

definition processAudioStream :: "(nat \<Rightarrow> real) \<Rightarrow> ServerState \<Rightarrow> ServerState option" where
  "processAudioStream clk st =
     (case capture st of
        None \<Rightarrow> Some st
      | Some cap \<Rightarrow>
          Option.bind (chunkStream (stream cap) CONFIG_bytesPerChunk)
            (\<lambda>chunks. Some (stopCapture (streamLoop clk 0 chunks st))))"

text \<open>\<^verbatim>\<open>startCapture\<close> as \<^verbatim>\<open>startServer\<close> uses it: the capture whose reads are \<open>reads\<close>.\<close>

definition startCapture :: "byte list list \<Rightarrow> ServerState \<Rightarrow> ServerState" where
  "startCapture reads st = st\<lparr> capture := Some \<lparr> stream = reads, killed = False \<rparr> \<rparr>"

text \<open>
  The callbacks of the source as events: a connection opening, a message arriving, a
  connection closing, and one pass of the streaming loop.
\<close>

datatype ServerEvent =
    Open string
  | Incoming string Message real real
  | Close string
  | Chunk "byte list" real

fun serverEvent :: "ServerEvent \<Rightarrow> ServerState \<Rightarrow> ServerState" where
  "serverEvent (Open cid) st = onOpen cid st"
| "serverEvent (Incoming w message tRecv tSend) st = handleMessage_server w message tRecv tSend st"
| "serverEvent (Close cid) st = onClose cid st"
| "serverEvent (Chunk pcmData tNow) st =
     (if \<not> isRunning st then st else broadcastChunk pcmData tNow st)"

definition serverRun :: "ServerEvent list \<Rightarrow> ServerState \<Rightarrow> ServerState" where
  "serverRun evs st = fold serverEvent evs st"

text \<open>The payloads of the audio chunks among the messages sent on a socket.\<close>

fun audioPayloads :: "Message list \<Rightarrow> byte list list" where
  "audioPayloads [] = []"
| "audioPayloads (AUDIO_CHUNK c # ms) = data c # audioPayloads ms"
| "audioPayloads (m # ms) = audioPayloads ms"

text \<open>
  The table as \<^verbatim>\<open>open\<close> and \<^verbatim>\<open>close\<close> keep it: one entry per connection id, and every
  entry holds the socket of that connection.
\<close>

definition wfClients :: "(string \<times> Client) list \<Rightarrow> bool" where
  "wfClients cs =
     (distinct (map fst cs) \<and> (\<forall>(k, client) \<in> set cs. client_id client = k \<and> client_ws client = k))"

text \<open>The blocks of the passes of the streaming loop among the events of a run.\<close>

fun chunkPayloads :: "ServerEvent list \<Rightarrow> byte list list" where
  "chunkPayloads [] = []"
| "chunkPayloads (Chunk pcmData tNow # evs) = pcmData # chunkPayloads evs"
| "chunkPayloads (ev # evs) = chunkPayloads evs"

text \<open>Whether the table holds a ready sink for socket \<open>w\<close>.\<close>

definition readyOn :: "(string \<times> Client) list \<Rightarrow> string \<Rightarrow> bool" where
  "readyOn cs w = (case map_of cs w of Some client \<Rightarrow> isReady client | None \<Rightarrow> False)"

section \<open>The wire codec (\<^verbatim>\<open>decodeMessage\<close> in \<^verbatim>\<open>protocol.ts\<close>)\<close>




















section \<open>Notions used to state the properties of the sink\<close>

text \<open>The buffer is in ascending order of \<^verbatim>\<open>playTime\<close>.\<close>

definition sortedByPlayTime :: "BufferedChunk list \<Rightarrow> bool" where
  "sortedByPlayTime buf = sorted (map playTime buf)"

text \<open>
  The order the specification words: ascending \<^verbatim>\<open>playTime\<close>, and ascending
  \<^verbatim>\<open>sequence\<close> among frames of equal \<^verbatim>\<open>playTime\<close>.
\<close>

definition orderedWithSequenceTies :: "BufferedChunk list \<Rightarrow> bool" where
  "orderedWithSequenceTies buf =
     sorted_wrt (\<lambda>a b. playTime a < playTime b
                      \<or> (playTime a = playTime b \<and> sequence (chunk a) \<le> sequence (chunk b))) buf"

text \<open>
  The time-span of the buffer as the sink computes it, \<^verbatim>\<open>lastChunk.playTime - firstChunk.playTime\<close>
  in doubles, is within \<^verbatim>\<open>maxBufferMs\<close>.
\<close>

definition spanOk :: "BufferedChunk list \<Rightarrow> bool" where
  "spanOk buf = (buf = [] \<or> fsub (playTime (last buf)) (playTime (hd buf)) \<le> CONFIG_maxBufferMs)"


text \<open>How many frames the overflow loop removes from the front of a buffer.\<close>

fun trimCount :: "BufferedChunk list \<Rightarrow> nat" where
  "trimCount [] = 0"
| "trimCount (f # rest) =
     (if fsub (playTime (last (f # rest))) (playTime f) \<le> CONFIG_maxBufferMs then 0
      else Suc (trimCount rest))"

text \<open>The local variable \<^verbatim>\<open>playTime\<close> of \<^verbatim>\<open>handleAudioChunk\<close>.\<close>

definition playTimeOf :: "AudioChunk \<Rightarrow> ClientState \<Rightarrow> real" where
  "playTimeOf c state = fadd (toLocalTime (timestamp c) (sync state)) CONFIG_targetBufferMs"

text \<open>
  The positive gap between the last sequence number seen and the next one delivered,
  counted only once a sequence number has been seen; and its sum over a stream.
\<close>

definition gapOf :: "int \<Rightarrow> int \<Rightarrow> int" where
  "gapOf lastSeq seq = (if lastSeq \<ge> 0 \<and> seq - lastSeq - 1 > 0 then seq - lastSeq - 1 else 0)"


text \<open>
  A stream of audio chunks handed to \<^verbatim>\<open>handleAudioChunk\<close> one after the other, each
  with the clock reading of its call.
\<close>

definition deliver :: "(AudioChunk \<times> real) list \<Rightarrow> ClientState \<Rightarrow> ClientState" where
  "deliver cs state = fold (\<lambda>(c, currentTime). handleAudioChunk c currentTime) cs state"

text \<open>The session is closed: there is no socket, or it is closing or closed.\<close>

definition sessionClosed :: "ClientState \<Rightarrow> bool" where
  "sessionClosed state =
     (case ws state of
        None \<Rightarrow> True
      | Some sock \<Rightarrow> readyState sock = CLOSING \<or> readyState sock = CLOSED)"

text \<open>The frame constants a descriptor announces are the sink's configured ones.\<close>

definition matchesConfig :: "ServerInfo \<Rightarrow> bool" where
  "matchesConfig info =
     (sampleRate info = CONFIG_sampleRate \<and> channels info = CONFIG_channels
      \<and> bitDepth info = CONFIG_bitDepth \<and> chunkDurationMs info = CONFIG_chunkDurationMs)"

text \<open>
  A sync exchange between doubles, for examples: the request leaves at the double nearest
  to 0.3 and arrives at the same reading of the source's clock, and the response leaves
  two doubles later, at the double nearest to 0.3000000000000001.
\<close>

definition tightExchange :: SyncResponse where
  "tightExchange =
     \<lparr> t1 = 5404319552844595 / 18014398509481984,
       t2 = 5404319552844595 / 18014398509481984,
       t3 = 5404319552844597 / 18014398509481984 \<rparr>"

text \<open>A clock that reads \<open>t\<close> at every call, for examples.\<close>

definition constClock :: "real \<Rightarrow> nat \<Rightarrow> real" where
  "constClock t k = t"

text \<open>
  A sink that has opened its socket at local time 0 and completed one sync exchange
  with all four timestamps 0: it is synced with offset 0 and has sent
  \<^verbatim>\<open>client_ready\<close>.
\<close>

definition syncedSink :: ClientState where
  "syncedSink =
     clientRun [OnOpen 0, OnMessage (SYNC_RESPONSE \<lparr> t1 = 0, t2 = 0, t3 = 0 \<rparr>) (constClock 0)]
       (initialClientState None)"

text \<open>An audio chunk without payload, for examples.\<close>

definition emptyChunk :: "real \<Rightarrow> int \<Rightarrow> AudioChunk" where
  "emptyChunk ts seq = \<lparr> timestamp = ts, sequence = seq, data = [] \<rparr>"


text \<open>
  A source whose capture yields \<open>reads\<close>, with one sink on socket \<open>''a''\<close> that has
  connected and declared itself ready.
\<close>

definition readyServer :: "byte list list \<Rightarrow> ServerState" where
  "readyServer reads =
     serverRun [Open ''a'', Incoming ''a'' (CLIENT_READY ''client'') 0 0]
       (startCapture reads (initialServerState 0))"

section \<open>Properties of the double-precision arithmetic\<close>

subsection \<open>Rounding to the nearest integer\<close>

lemma roundEven_cases:
  obtains (down) "roundEven x = \<lfloor>x\<rfloor>" "x - of_int \<lfloor>x\<rfloor> \<le> 1 / 2"
  | (up) "roundEven x = \<lfloor>x\<rfloor> + 1" "1 / 2 \<le> x - of_int \<lfloor>x\<rfloor>"
  unfolding roundEven_def Let_def by (cases "x - of_int \<lfloor>x\<rfloor> < 1 / 2"; cases "x - of_int \<lfloor>x\<rfloor> > 1 / 2"; cases "even \<lfloor>x\<rfloor>"; simp)

lemma roundEven_of_int: "roundEven (of_int n) = n"
  by (simp add: roundEven_def)

lemma roundEven_err: "\<bar>of_int (roundEven x) - x\<bar> \<le> 1 / 2"
proof (cases x rule: roundEven_cases)
  case down
  have "of_int \<lfloor>x\<rfloor> \<le> x" by simp
  with down show ?thesis by simp
next
  case up
  have "x < of_int \<lfloor>x\<rfloor> + 1" by linarith
  with up show ?thesis by simp
qed

lemma roundEven_floor_le: "\<lfloor>x\<rfloor> \<le> roundEven x"
  by (cases x rule: roundEven_cases) simp_all

lemma roundEven_le_floor: "roundEven x \<le> \<lfloor>x\<rfloor> + 1"
  by (cases x rule: roundEven_cases) simp_all

lemma roundEven_mono: "x \<le> y \<Longrightarrow> roundEven x \<le> roundEven y"
proof -
  assume xy: "x \<le> y"
  then have fl: "\<lfloor>x\<rfloor> \<le> \<lfloor>y\<rfloor>" by (rule floor_mono)
  show ?thesis
  proof (cases "\<lfloor>x\<rfloor> = \<lfloor>y\<rfloor>")
    case True
    then have d: "x - of_int \<lfloor>x\<rfloor> \<le> y - of_int \<lfloor>y\<rfloor>" using xy by simp
    show ?thesis
      using d True unfolding roundEven_def Let_def by (auto split: if_splits)
  next
    case False
    with fl have "\<lfloor>x\<rfloor> + 1 \<le> \<lfloor>y\<rfloor>" by simp
    with roundEven_le_floor [of x] roundEven_floor_le [of y] show ?thesis by linarith
  qed
qed

lemma roundEven_le_int: "x \<le> of_int n \<Longrightarrow> roundEven x \<le> n"
  using roundEven_mono [of x "of_int n"] by (simp add: roundEven_of_int)

lemma roundEven_ge_int: "of_int n \<le> x \<Longrightarrow> n \<le> roundEven x"
  using roundEven_mono [of "of_int n" x] by (simp add: roundEven_of_int)

lemma roundEven_uminus: "roundEven (- x) = - roundEven x"
proof (cases "x = of_int \<lfloor>x\<rfloor>")
  case True
  then obtain n where "x = of_int n" ..
  then have "- x = of_int (- n)" by simp
  then show ?thesis unfolding \<open>x = of_int n\<close> by (simp only: roundEven_of_int)
next
  case False
  then have fl: "\<lfloor>- x\<rfloor> = - \<lfloor>x\<rfloor> - 1"
  proof -
    have "of_int \<lfloor>x\<rfloor> \<le> x" by (rule of_int_floor_le)
    with False have "of_int \<lfloor>x\<rfloor> < x" by linarith
    moreover have "x < of_int \<lfloor>x\<rfloor> + 1" by linarith
    ultimately have "of_int (- \<lfloor>x\<rfloor> - 1) \<le> - x \<and> - x < of_int (- \<lfloor>x\<rfloor> - 1) + 1"
      unfolding of_int_diff of_int_minus of_int_1 by linarith
    then show ?thesis by (simp only: floor_unique)
  qed
  have "even (- \<lfloor>x\<rfloor> - 1) \<longleftrightarrow> odd \<lfloor>x\<rfloor>" by simp
  then show ?thesis
    unfolding roundEven_def Let_def fl by (auto split: if_splits)
qed


subsection \<open>The binary exponent\<close>

lemma two_powi_mono: "a \<le> b \<Longrightarrow> (2::real) powi a \<le> 2 powi b"
  by (rule power_int_increasing) simp_all

lemma two_powi_less_D: "(2::real) powi a < 2 powi b \<Longrightarrow> a < b"
proof (rule ccontr)
  assume lt: "(2::real) powi a < 2 powi b" and "\<not> a < b"
  then have "b \<le> a" by simp
  then have "(2::real) powi b \<le> 2 powi a" by (rule two_powi_mono)
  with lt show False by simp
qed

lemma floorlog2_bounds:
  assumes "0 < n"
  shows "0 < floorlog 2 n" and "(2::nat) ^ (floorlog 2 n - 1) \<le> n" and "n < 2 ^ floorlog 2 n"
proof -
  show "0 < floorlog 2 n" using assms by (simp add: floorlog_def)
  from floorlog_bounds [of n 2] assms
  show "(2::nat) ^ (floorlog 2 n - 1) \<le> n" and "n < 2 ^ floorlog 2 n" by simp_all
qed

lemma binade_bounds:
  assumes "x \<noteq> 0"
  shows "2 powi binade x \<le> \<bar>x\<bar>" and "\<bar>x\<bar> < 2 powi (binade x + 1)"
proof -
  have "2 powi binade x \<le> \<bar>x\<bar> \<and> \<bar>x\<bar> < 2 powi (binade x + 1)"
  proof (cases "1 \<le> \<bar>x\<bar>")
    case True
    define n where "n = nat \<lfloor>\<bar>x\<bar>\<rfloor>"
    define k where "k = floorlog 2 n"
    have fl1: "1 \<le> \<lfloor>\<bar>x\<bar>\<rfloor>" using True by linarith
    then have n: "0 < n" by (simp add: n_def)
    have rn: "real n = of_int \<lfloor>\<bar>x\<bar>\<rfloor>" using fl1 by (simp add: n_def)
    note b = floorlog2_bounds [OF n, folded k_def]
    have bin: "binade x = int (k - 1)"
      using True b(1) by (simp add: binade_def n_def k_def)
    have bin1: "binade x + 1 = int k"
      using b(1) unfolding bin by simp
    have lo: "real n \<le> \<bar>x\<bar>" unfolding rn by (rule of_int_floor_le)
    have hi: "\<bar>x\<bar> < real n + 1" unfolding rn by linarith
    have "(2::real) ^ (k - 1) \<le> real n"
      using b(2) by (metis of_nat_le_iff of_nat_numeral of_nat_power)
    moreover have "real n + 1 \<le> 2 ^ k"
    proof -
      from b(3) have "n + 1 \<le> 2 ^ k" by simp
      then have "real (n + 1) \<le> real (2 ^ k)" by (rule iffD2 [OF of_nat_le_iff])
      then show ?thesis by simp
    qed
    ultimately show ?thesis
      unfolding bin1 unfolding bin power_int_of_nat using lo hi by linarith
  next
    case False
    define y where "y = 1 / \<bar>x\<bar>"
    define n where "n = nat (\<lceil>y\<rceil> - 1)"
    define k where "k = floorlog 2 n"
    have xpos: "0 < \<bar>x\<bar>" using assms by simp
    have y1: "1 < y" using False xpos by (simp add: y_def)
    then have c2: "2 \<le> \<lceil>y\<rceil>" by linarith
    then have n: "0 < n" by (simp add: n_def)
    have rn: "real n = of_int \<lceil>y\<rceil> - 1" using c2 by (simp add: n_def)
    note b = floorlog2_bounds [OF n, folded k_def]
    have bin: "binade x = - int k"
      using False by (simp add: binade_def n_def k_def y_def)
    have lo: "real n < y" unfolding rn by linarith
    have hi: "y \<le> real n + 1" unfolding rn by simp
    have l2: "(2::real) ^ (k - 1) \<le> real n"
      using b(2) by (metis of_nat_le_iff of_nat_numeral of_nat_power)
    have h2: "real n + 1 \<le> 2 ^ k"
    proof -
      from b(3) have "n + 1 \<le> 2 ^ k" by simp
      then have "real (n + 1) \<le> real (2 ^ k)" by (rule iffD2 [OF of_nat_le_iff])
      then show ?thesis by simp
    qed
    have ylo: "(2::real) ^ (k - 1) < y" using l2 lo by linarith
    have yhi: "y \<le> 2 ^ k" using h2 hi by linarith
    have xy: "\<bar>x\<bar> = 1 / y" using xpos by (simp add: y_def)
    have ypos: "0 < y" using y1 by simp
    have a1: "1 / 2 ^ k \<le> \<bar>x\<bar>"
      unfolding xy using yhi ypos by (simp add: frac_le)
    have a2: "\<bar>x\<bar> < 1 / 2 ^ (k - 1)"
      unfolding xy using ylo by (simp add: frac_less2)
    have p1: "2 powi (- int k) = 1 / (2::real) ^ k"
      by (simp add: power_int_minus_divide)
    have "- int k + 1 = - int (k - 1)" using b(1) by simp
    then have p2: "2 powi (- int k + 1) = 1 / (2::real) ^ (k - 1)"
      by (simp only: power_int_minus_divide power_int_of_nat)
    show ?thesis unfolding bin p1 p2 using a1 a2 by simp
  qed
  then show "2 powi binade x \<le> \<bar>x\<bar>" and "\<bar>x\<bar> < 2 powi (binade x + 1)" by simp_all
qed


lemma binade_mono:
  assumes "x \<noteq> 0" and "\<bar>x\<bar> \<le> \<bar>y\<bar>"
  shows "binade x \<le> binade y"
proof -
  from assms have ny: "y \<noteq> 0" by auto
  have "(2::real) powi binade x < 2 powi (binade y + 1)"
    using binade_bounds(1) [OF assms(1)] binade_bounds(2) [OF ny] assms(2) by linarith
  then have "binade x < binade y + 1" by (rule two_powi_less_D)
  then show ?thesis by simp
qed

lemma binade_uminus: "binade (- x) = binade x"
  by (simp add: binade_def)


subsection \<open>Rounding to the nearest double\<close>

lemma two_powi_add: "(2::real) powi (a + b) = 2 powi a * 2 powi b"
  by (simp add: power_int_add)

lemma two_powi_int: "0 \<le> n \<Longrightarrow> (2::real) powi n = of_int (2 ^ nat n)"
  by (simp add: power_int_nonneg_exp)

lemma round64_zero: "round64 0 = 0"
  by (simp add: round64_def)

lemma round64_uminus: "round64 (- x) = - round64 x"
  by (simp add: round64_def binade_uminus roundEven_uminus Let_def)

lemma round64_eq:
  assumes "x \<noteq> 0" and "e = max (binade x - 52) (- 1074)"
  shows "round64 x = of_int (roundEven (x / 2 powi e)) * 2 powi e"
  using assms by (simp add: round64_def Let_def)

lemma round64_err: "\<bar>round64 x - x\<bar> \<le> \<bar>x\<bar> * 2 powi (- 53) + 2 powi (- 1075)"
proof (cases "x = 0")
  case True
  then show ?thesis by (simp add: round64_zero)
next
  case False
  define e where "e = max (binade x - 52) (- 1074)"
  define z where "z = x / 2 powi e"
  have p: "0 < (2::real) powi e" by simp
  have xz: "x = z * 2 powi e" by (simp add: z_def)
  have r: "round64 x = of_int (roundEven z) * 2 powi e"
    unfolding z_def by (rule round64_eq [OF False e_def])
  have "round64 x - x = (of_int (roundEven z) - z) * 2 powi e"
    by (simp add: r left_diff_distrib xz [symmetric])
  then have "\<bar>round64 x - x\<bar> = \<bar>of_int (roundEven z) - z\<bar> * 2 powi e"
    by (simp add: abs_mult)
  also have "\<dots> \<le> 1 / 2 * 2 powi e"
    by (rule mult_right_mono [OF roundEven_err]) simp
  also have "\<dots> = 2 powi (e - 1)"
    by (simp add: power_int_diff)
  finally have b: "\<bar>round64 x - x\<bar> \<le> 2 powi (e - 1)" .
  have x0: "0 \<le> \<bar>x\<bar> * 2 powi (- 53)" by simp
  have e0: "0 \<le> (2::real) powi (- 1075)" by simp
  show ?thesis
  proof (cases "binade x - 52 \<le> - 1074")
    case True
    then have "e - 1 = - 1075" by (simp add: e_def)
    with b have "\<bar>round64 x - x\<bar> \<le> 2 powi (- 1075)" by (simp only:)
    then show ?thesis by (rule add_increasing [OF x0])
  next
    case False
    then have "e - 1 = binade x + (- 53)" by (simp add: e_def)
    then have "(2::real) powi (e - 1) = 2 powi binade x * 2 powi (- 53)"
      by (simp only: two_powi_add)
    also have "\<dots> \<le> \<bar>x\<bar> * 2 powi (- 53)"
      by (rule mult_right_mono [OF binade_bounds(1) [OF \<open>x \<noteq> 0\<close>]]) simp
    finally have "\<bar>round64 x - x\<bar> \<le> \<bar>x\<bar> * 2 powi (- 53)" using b by (rule order_trans [rotated])
    then show ?thesis by (rule add_increasing2 [OF e0])
  qed
qed

lemma round64_nonneg: "0 \<le> x \<Longrightarrow> 0 \<le> round64 x"
proof (cases "x = 0")
  case True
  then show ?thesis by (simp add: round64_zero)
next
  case False
  assume "0 \<le> x"
  define e where "e = max (binade x - 52) (- 1074)"
  have "of_int 0 \<le> x / 2 powi e" using \<open>0 \<le> x\<close> by simp
  then have "0 \<le> roundEven (x / 2 powi e)" by (rule roundEven_ge_int)
  then show ?thesis
    unfolding round64_eq [OF False e_def] by simp
qed

lemma round64_nonpos: "x \<le> 0 \<Longrightarrow> round64 x \<le> 0"
  using round64_nonneg [of "- x"] by (simp add: round64_uminus)

lemma round64_mono_pos:
  assumes "0 < x" and "x \<le> y"
  shows "round64 x \<le> round64 y"
proof -
  define ex where "ex = max (binade x - 52) (- 1074)"
  define ey where "ey = max (binade y - 52) (- 1074)"
  have nx: "x \<noteq> 0" and ny: "y \<noteq> 0" and ypos: "0 < y" using assms by simp_all
  have rx: "round64 x = of_int (roundEven (x / 2 powi ex)) * 2 powi ex"
    by (rule round64_eq [OF nx ex_def])
  have ry: "round64 y = of_int (roundEven (y / 2 powi ey)) * 2 powi ey"
    by (rule round64_eq [OF ny ey_def])
  have bxy: "binade x \<le> binade y"
    by (rule binade_mono [OF nx]) (use assms in simp)
  then have exy: "ex \<le> ey" by (simp add: ex_def ey_def)
  show ?thesis
  proof (cases "ex = ey")
    case True
    have "x / 2 powi ey \<le> y / 2 powi ey"
      by (rule divide_right_mono [OF assms(2)]) simp
    then have "roundEven (x / 2 powi ey) \<le> roundEven (y / 2 powi ey)"
      by (rule roundEven_mono)
    then show ?thesis unfolding rx ry True by simp
  next
    case False
    with exy have lt: "ex < ey" by simp
    then have ey: "ey = binade y - 52" and blt: "binade x < binade y"
      by (auto simp: ex_def ey_def)
    have lower: "2 powi binade y \<le> round64 y"
    proof -
      have "(2::real) powi 52 * 2 powi ey = 2 powi binade y"
        unfolding ey by (simp only: two_powi_add [symmetric]) simp
      then have "2 powi binade y / 2 powi ey = (2::real) powi 52"
        by (simp add: field_simps)
      moreover have "2 powi binade y / 2 powi ey \<le> y / 2 powi ey"
        by (rule divide_right_mono) (use binade_bounds(1) [OF ny] ypos in simp_all)
      ultimately have "of_int (2 ^ 52) \<le> y / 2 powi ey" by simp
      then have "2 ^ 52 \<le> roundEven (y / 2 powi ey)" by (rule roundEven_ge_int)
      then have "(2::real) ^ 52 \<le> of_int (roundEven (y / 2 powi ey))"
        by (metis of_int_le_iff of_int_numeral of_int_power)
      then have A: "(2::real) ^ 52 * 2 powi ey \<le> of_int (roundEven (y / 2 powi ey)) * 2 powi ey"
        by (rule mult_right_mono) simp
      have B: "(2::real) ^ 52 * 2 powi ey = 2 powi binade y"
        using \<open>(2::real) powi 52 * 2 powi ey = 2 powi binade y\<close> by simp
      from A show ?thesis unfolding ry B .
    qed
    have upper: "round64 x \<le> 2 powi binade y"
    proof -
      define d where "d = binade y - ex"
      have d0: "0 \<le> d" using lt ey by (simp add: d_def)
      have "\<bar>x\<bar> < 2 powi (binade x + 1)" by (rule binade_bounds(2) [OF nx])
      moreover have "(2::real) powi (binade x + 1) \<le> 2 powi binade y"
        by (rule two_powi_mono) (use blt in simp)
      ultimately have xle: "x \<le> 2 powi binade y" using assms(1) by simp
      have split: "(2::real) powi binade y = 2 powi d * 2 powi ex"
        unfolding d_def by (simp only: two_powi_add [symmetric]) simp
      have "x / 2 powi ex \<le> 2 powi binade y / 2 powi ex"
        by (rule divide_right_mono [OF xle]) simp
      also have "\<dots> = 2 powi d" unfolding split by simp
      also have "\<dots> = of_int (2 ^ nat d)" by (rule two_powi_int [OF d0])
      finally have "roundEven (x / 2 powi ex) \<le> 2 ^ nat d" by (rule roundEven_le_int)
      then have "(of_int (roundEven (x / 2 powi ex)) :: real) \<le> of_int (2 ^ nat d)"
        by (simp only: of_int_le_iff)
      then have "of_int (roundEven (x / 2 powi ex)) * 2 powi ex \<le> of_int (2 ^ nat d) * (2::real) powi ex"
        by (rule mult_right_mono) simp
      also have "of_int (2 ^ nat d) * (2::real) powi ex = 2 powi binade y"
        unfolding split two_powi_int [OF d0] by simp
      finally show ?thesis unfolding rx .
    qed
    from lower upper show ?thesis by linarith
  qed
qed

lemma round64_mono: "x \<le> y \<Longrightarrow> round64 x \<le> round64 y"
proof -
  assume xy: "x \<le> y"
  consider "0 < x" | "x \<le> 0" "0 \<le> y" | "y < 0" by linarith
  then show ?thesis
  proof cases
    case 1
    then show ?thesis using xy by (rule round64_mono_pos)
  next
    case 2
    then show ?thesis using round64_nonpos [of x] round64_nonneg [of y] by linarith
  next
    case 3
    then have "0 < - y" and "- y \<le> - x" using xy by simp_all
    then have "round64 (- y) \<le> round64 (- x)" by (rule round64_mono_pos)
    then show ?thesis by (simp add: round64_uminus)
  qed
qed

text \<open>
  The rounding error is at most \<open>2\<^sup>-\<^sup>5\<^sup>3\<close> of the magnitude, or \<open>2\<^sup>-\<^sup>1\<^sup>0\<^sup>7\<^sup>5\<close> for a
  subnormal result.
\<close>

lemma halfSubnormal_pos: "0 < halfSubnormal"
  by (simp only: halfSubnormal_def zero_less_power_int zero_less_numeral)

lemma round64_error: "\<bar>round64 x - x\<bar> \<le> \<bar>x\<bar> / 9007199254740992 + halfSubnormal"
proof -
  have "(2::real) powi (- 53) = 1 / 9007199254740992" by simp
  then have "\<bar>x\<bar> * 2 powi (- 53) = \<bar>x\<bar> / 9007199254740992" by (simp only: times_divide_eq_right mult_1_right)
  with round64_err [of x] show ?thesis by (simp only: halfSubnormal_def)
qed

text \<open>Evaluation of the rounding on a rational numeral.\<close>

lemmas round64_eval = round64_def binade_def compute_floorlog roundEven_def Let_def


subsection \<open>The round trip and the offset of one exchange\<close>

lemma rounded_rtt_nonneg:
  assumes "x1 \<le> x2" "x2 \<le> x3" "x3 \<le> x4"
  shows "0 \<le> fsub (fsub x4 x1) (fsub x3 x2)"
proof -
  have "x3 - x2 \<le> x4 - x1" using assms by linarith
  then have "fsub x3 x2 \<le> fsub x4 x1" unfolding fsub_def by (rule round64_mono)
  then have "0 \<le> fsub x4 x1 - fsub x3 x2" by simp
  then show ?thesis unfolding fsub_def [of "fsub x4 x1"] by (rule round64_nonneg)
qed

lemma rounding_chain:
  fixes A B S F D C R a b c h :: real
  assumes h: "0 < h" and a0: "0 \<le> a" and b0: "0 \<le> b" and c0: "0 \<le> c"
    and A0: "0 \<le> A" and B0: "B \<le> 0" and CD: "C \<le> D"
    and eA: "\<bar>A - a\<bar> \<le> a / 9007199254740992 + h"
    and eB: "\<bar>B + b\<bar> \<le> b / 9007199254740992 + h"
    and eS: "\<bar>S - (A + B)\<bar> \<le> \<bar>A + B\<bar> / 9007199254740992 + h"
    and eF: "\<bar>F - S / 2\<bar> \<le> \<bar>S / 2\<bar> / 9007199254740992 + h"
    and eD: "\<bar>D - (a + b + c)\<bar> \<le> (a + b + c) / 9007199254740992 + h"
    and eC: "\<bar>C - c\<bar> \<le> c / 9007199254740992 + h"
    and eR: "\<bar>R - (D - C)\<bar> \<le> \<bar>D - C\<bar> / 9007199254740992 + h"
  shows "\<bar>F\<bar> \<le> R / 2 + c / 2 + (a + b + c) / 2251799813685248 + 8 * h"
proof -
  have A1: "A \<le> a + a / 9007199254740992 + h" using eA by argo
  have B1: "- B \<le> b + b / 9007199254740992 + h" using eB by argo
  have AB: "\<bar>A + B\<bar> \<le> a + b + (a / 9007199254740992 + b / 9007199254740992) + h"
    using A0 B0 A1 B1 a0 b0 by argo
  have S1: "\<bar>S\<bar> \<le> \<bar>A + B\<bar> + \<bar>A + B\<bar> / 9007199254740992 + h"
    using eS by argo
  have S2: "\<bar>S\<bar> \<le> a + b + 5 / 2 * (a / 9007199254740992 + b / 9007199254740992) + 3 * h"
    using S1 AB a0 b0 h by argo
  have F1: "\<bar>F\<bar> \<le> \<bar>S\<bar> / 2 + \<bar>S\<bar> / 2 / 9007199254740992 + h"
    using eF by argo
  have F2: "\<bar>F\<bar> \<le> a / 2 + b / 2 + 2 * (a / 9007199254740992 + b / 9007199254740992) + 3 * h"
    using F1 S2 a0 b0 h by argo
  have D1: "a + b + c - (a / 9007199254740992 + b / 9007199254740992 + c / 9007199254740992) - h \<le> D"
    using eD by argo
  have C1: "C \<le> c + c / 9007199254740992 + h"
    using eC by argo
  have DC: "a + b - (a / 9007199254740992 + b / 9007199254740992 + 2 * (c / 9007199254740992)) - 2 * h \<le> D - C"
    using D1 C1 by argo
  have R1: "D - C - (D - C) / 9007199254740992 - h \<le> R"
    using eR CD by argo
  have R2: "a + b - 2 * (a / 9007199254740992 + b / 9007199254740992 + c / 9007199254740992) - 3 * h \<le> R"
    using R1 DC CD a0 b0 c0 h by argo
  have "\<bar>F\<bar> \<le> R / 2 + c / 2 + 4 * (a / 9007199254740992 + b / 9007199254740992 + c / 9007199254740992) + 8 * h"
    using F2 R2 a0 b0 c0 h by argo
  then show ?thesis by (simp add: add_divide_distrib)
qed

lemma rounded_offset_bound:
  assumes "x1 \<le> x2" "x2 \<le> x3" "x3 \<le> x4"
  shows "\<bar>fdiv (fadd (fsub x2 x1) (fsub x3 x4)) 2\<bar>
           \<le> fsub (fsub x4 x1) (fsub x3 x2) / 2 + \<bar>x2 - x3\<bar> / 2
             + (x4 - x1) / 2 ^ 51 + 8 * halfSubnormal"
proof -
  define a where "a = x2 - x1"
  define b where "b = x4 - x3"
  define c where "c = x3 - x2"
  have a0: "0 \<le> a" and b0: "0 \<le> b" and c0: "0 \<le> c"
    using assms by (simp_all add: a_def b_def c_def)
  have d: "x4 - x1 = a + b + c" and nb: "x3 - x4 = - b" and nc: "\<bar>x2 - x3\<bar> = c"
    using c0 by (simp_all add: a_def b_def c_def)
  have abs_a: "\<bar>a\<bar> = a" and abs_b: "\<bar>- b\<bar> = b" and abs_c: "\<bar>c\<bar> = c"
    and abs_d: "\<bar>a + b + c\<bar> = a + b + c"
    using a0 b0 c0 by simp_all
  define A where "A = round64 a"
  define B where "B = round64 (- b)"
  define S where "S = round64 (A + B)"
  define F where "F = round64 (S / 2)"
  define D where "D = round64 (a + b + c)"
  define C where "C = round64 c"
  define R where "R = round64 (D - C)"
  have A0: "0 \<le> A" unfolding A_def using a0 by (rule round64_nonneg)
  have B0: "B \<le> 0" unfolding B_def by (rule round64_nonpos) (use b0 in simp)
  have CD: "C \<le> D" unfolding C_def D_def by (rule round64_mono) (use a0 b0 in simp)
  have eA: "\<bar>A - a\<bar> \<le> a / 9007199254740992 + halfSubnormal"
    using round64_error [of a] unfolding A_def abs_a .
  have eB: "\<bar>B + b\<bar> \<le> b / 9007199254740992 + halfSubnormal"
    using round64_error [of "- b"] unfolding B_def abs_b by simp
  have eS: "\<bar>S - (A + B)\<bar> \<le> \<bar>A + B\<bar> / 9007199254740992 + halfSubnormal"
    unfolding S_def by (rule round64_error)
  have eF: "\<bar>F - S / 2\<bar> \<le> \<bar>S / 2\<bar> / 9007199254740992 + halfSubnormal"
    unfolding F_def by (rule round64_error)
  have eD: "\<bar>D - (a + b + c)\<bar> \<le> (a + b + c) / 9007199254740992 + halfSubnormal"
    using round64_error [of "a + b + c"] unfolding D_def abs_d .
  have eC: "\<bar>C - c\<bar> \<le> c / 9007199254740992 + halfSubnormal"
    using round64_error [of c] unfolding C_def abs_c .
  have eR: "\<bar>R - (D - C)\<bar> \<le> \<bar>D - C\<bar> / 9007199254740992 + halfSubnormal"
    unfolding R_def by (rule round64_error)
  have "\<bar>F\<bar> \<le> R / 2 + c / 2 + (a + b + c) / 2251799813685248 + 8 * halfSubnormal"
    by (rule rounding_chain [OF halfSubnormal_pos a0 b0 c0 A0 B0 CD eA eB eS eF eD eC eR])
  moreover have "fdiv (fadd (fsub x2 x1) (fsub x3 x4)) 2 = F"
    unfolding F_def S_def A_def B_def fdiv_def fadd_def fsub_def nb a_def [symmetric] ..
  moreover have "fsub (fsub x4 x1) (fsub x3 x2) = R"
    unfolding R_def D_def C_def fsub_def d c_def [symmetric] ..
  ultimately show ?thesis unfolding nc d by simp
qed

section \<open>Properties of the clock synchronisation\<close>

lemma sliceLast_snoc_last: "0 < k \<Longrightarrow> last (sliceLast k (xs @ [x])) = x"
  by (simp add: sliceLast_def)

lemma sliceLast_snoc_nonempty: "0 < k \<Longrightarrow> sliceLast k (xs @ [x]) \<noteq> []"
  by (simp add: sliceLast_def)

text \<open>
  \<^bold>\<open>C1.\<close> For every sync exchange with \<open>t1 \<le> t2 \<le> t3 \<le> t4\<close>, the sample that
  \<^verbatim>\<open>processSyncResponse\<close> appends has the \<open>rtt\<close> and the \<open>offset\<close> that the double
  operations of \<^verbatim>\<open>t4 - t1 - (t3 - t2)\<close> and \<^verbatim>\<open>(t2 - t1 + (t3 - t4)) / 2\<close> give, the state's
  round-trip time is that \<open>rtt\<close>, \<open>rtt \<ge> 0\<close>, and
  \<open>|offset| \<le> rtt / 2 + |t2 - t3| / 2 + (t4 - t1) / 2\<^sup>5\<^sup>1 + 2\<^sup>-\<^sup>1\<^sup>0\<^sup>7\<^sup>2\<close>: the bound of the
  exact formulas, up to the rounding of the seven operations.
\<close>

theorem sync_sample_bounds:
  assumes "t1 r \<le> t2 r" and "t2 r \<le> t3 r" and "t3 r \<le> t4"
  shows "let s = processSyncResponse r st t4 tSample tLast; smp = last (samples s)
         in sample_rtt smp = fsub (fsub t4 (t1 r)) (fsub (t3 r) (t2 r))
          \<and> sample_offset smp = fdiv (fadd (fsub (t2 r) (t1 r)) (fsub (t3 r) t4)) 2
          \<and> roundTripTime s = sample_rtt smp
          \<and> 0 \<le> sample_rtt smp
          \<and> \<bar>sample_offset smp\<bar>
              \<le> sample_rtt smp / 2 + \<bar>t2 r - t3 r\<bar> / 2 + (t4 - t1 r) / 2 ^ 51 + 8 * halfSubnormal"
proof -
  define smp where "smp = \<lparr> sample_offset = sampleOffset r t4, sample_rtt = sampleRtt r t4,
                            sample_timestamp = tSample \<rparr>"
  have l: "last (samples (processSyncResponse r st t4 tSample tLast)) = smp"
    by (simp add: processSyncResponse_def Let_def smp_def sliceLast_snoc_last CONFIG_syncSamples_def)
  have rt: "roundTripTime (processSyncResponse r st t4 tSample tLast) = sampleRtt r t4"
    by (simp add: processSyncResponse_def Let_def)
  have nonneg: "0 \<le> sampleRtt r t4"
    unfolding sampleRtt_def by (rule rounded_rtt_nonneg [OF assms])
  have bound: "\<bar>sampleOffset r t4\<bar>
             \<le> sampleRtt r t4 / 2 + \<bar>t2 r - t3 r\<bar> / 2 + (t4 - t1 r) / 2 ^ 51 + 8 * halfSubnormal"
    unfolding sampleRtt_def sampleOffset_def by (rule rounded_offset_bound [OF assms])
  have sel: "sample_rtt smp = sampleRtt r t4" "sample_offset smp = sampleOffset r t4"
    by (simp_all add: smp_def)
  show ?thesis
    unfolding Let_def l rt sel using nonneg bound
    by (simp only: sampleRtt_def sampleOffset_def simp_thms)
qed

theorem sync_sample_bounds_witness:
  "let r = \<lparr> t1 = 0, t2 = 1, t3 = 2 \<rparr>;
       s = processSyncResponse r createSyncState 4 4 4;
       smp = last (samples s)
   in t1 r \<le> t2 r \<and> t2 r \<le> t3 r \<and> t3 r \<le> 4
    \<and> sample_rtt smp = 3 \<and> sample_offset smp = - (1 / 2)
    \<and> 0 \<le> sample_rtt smp
    \<and> \<bar>sample_offset smp\<bar>
        \<le> sample_rtt smp / 2 + \<bar>t2 r - t3 r\<bar> / 2 + (4 - t1 r) / 2 ^ 51 + 8 * halfSubnormal"
proof -
  have v: "fsub (fsub 4 0) (fsub 2 1) = 3" "fdiv (fadd (fsub 1 0) (fsub 2 4)) 2 = - (1 / 2)"
    by (simp_all add: fsub_def fadd_def fdiv_def round64_eval)
  show ?thesis
    using sync_sample_bounds [of "\<lparr> t1 = 0, t2 = 1, t3 = 2 \<rparr>" 4 createSyncState 4 4]
      halfSubnormal_pos
    by (simp add: Let_def v)
qed

text \<open>
  The bound without the rounding terms does not hold. In the exchange
  \<^const>\<open>tightExchange\<close>, answered at local time 1.5, the sink computes
  \<open>rtt = 1.1999999999999997\<close> and \<open>offset = - 0.6\<close>, that is
  \<open>2702159776422297 / 2\<^sup>5\<^sup>1\<close> and \<open>- 5404319552844595 / 2\<^sup>5\<^sup>3\<close>: \<open>|offset|\<close> exceeds
  \<open>rtt / 2 + |t2 - t3| / 2\<close>, whether that sum is read exactly or computed in doubles.
\<close>

theorem sync_rounding_counterexample:
  "t1 tightExchange \<le> t2 tightExchange \<and> t2 tightExchange \<le> t3 tightExchange
   \<and> t3 tightExchange \<le> 3 / 2
   \<and> roundTripTime (processSyncResponse tightExchange createSyncState (3 / 2) (3 / 2) (3 / 2))
       = 2702159776422297 / 2251799813685248
   \<and> sample_rtt (last (samples
         (processSyncResponse tightExchange createSyncState (3 / 2) (3 / 2) (3 / 2))))
       = 2702159776422297 / 2251799813685248
   \<and> sample_offset (last (samples
         (processSyncResponse tightExchange createSyncState (3 / 2) (3 / 2) (3 / 2))))
       = - (5404319552844595 / 9007199254740992)
   \<and> \<not> \<bar>sample_offset (last (samples
            (processSyncResponse tightExchange createSyncState (3 / 2) (3 / 2) (3 / 2))))\<bar>
         \<le> sample_rtt (last (samples
              (processSyncResponse tightExchange createSyncState (3 / 2) (3 / 2) (3 / 2)))) / 2
           + \<bar>t2 tightExchange - t3 tightExchange\<bar> / 2
   \<and> \<not> \<bar>sample_offset (last (samples
            (processSyncResponse tightExchange createSyncState (3 / 2) (3 / 2) (3 / 2))))\<bar>
         \<le> fadd (fdiv (sample_rtt (last (samples
                    (processSyncResponse tightExchange createSyncState (3 / 2) (3 / 2) (3 / 2))))) 2)
                (fdiv \<bar>fsub (t2 tightExchange) (t3 tightExchange)\<bar> 2)"
proof -
  have rtt: "sampleRtt tightExchange (3 / 2) = 2702159776422297 / 2251799813685248"
    by (simp add: sampleRtt_def tightExchange_def fsub_def round64_eval)
  have off: "sampleOffset tightExchange (3 / 2) = - (5404319552844595 / 9007199254740992)"
    by (simp add: sampleOffset_def tightExchange_def fsub_def fadd_def fdiv_def round64_eval)
  have s: "processSyncResponse tightExchange createSyncState (3 / 2) (3 / 2) (3 / 2)
         = \<lparr> offset = - (5404319552844595 / 9007199254740992),
             roundTripTime = 2702159776422297 / 2251799813685248,
             drift = Some 0,
             samples = [\<lparr> sample_offset = - (5404319552844595 / 9007199254740992),
                          sample_rtt = 2702159776422297 / 2251799813685248,
                          sample_timestamp = 3 / 2 \<rparr>],
             lastSyncTime = 3 / 2, isSynced = True \<rparr>"
    by (simp add: processSyncResponse_def rtt off createSyncState_def sliceLast_def
        CONFIG_syncSamples_def calculateWeightedOffset_def calculateDrift_def Let_def)
  have d: "fadd (fdiv (2702159776422297 / 2251799813685248) 2)
             (fdiv \<bar>fsub (t2 tightExchange) (t3 tightExchange)\<bar> 2)
         = 2702159776422297 / 4503599627370496"
    by (simp add: tightExchange_def fsub_def fadd_def fdiv_def round64_eval)
  show ?thesis
    unfolding s by (simp add: d) (simp add: tightExchange_def)
qed

section \<open>Properties of the framer\<close>

lemma blocks_Nil: "blocks n [] = []"
  by (simp add: blocks.simps)

lemma blocks_step: "0 < n \<Longrightarrow> xs \<noteq> [] \<Longrightarrow> blocks n xs = take n xs # blocks n (drop n xs)"
  by (subst blocks.simps) simp

lemma blocks_short: "0 < n \<Longrightarrow> xs \<noteq> [] \<Longrightarrow> length xs \<le> n \<Longrightarrow> blocks n xs = [xs]"
  by (simp add: blocks_step blocks_Nil)

lemma concat_blocks: "0 < n \<Longrightarrow> concat (blocks n xs) = xs"
proof (induction n xs rule: blocks.induct)
  case (1 n xs)
  show ?case
  proof (cases "xs = []")
    case True
    then show ?thesis by (simp add: blocks_Nil)
  next
    case False
    with 1 show ?thesis by (simp add: blocks_step)
  qed
qed

lemma blocks_eq_Nil: "0 < n \<Longrightarrow> blocks n xs = [] \<longleftrightarrow> xs = []"
  by (cases "xs = []") (simp_all add: blocks_Nil blocks_step)

lemma blocks_butlast_full: "0 < n \<Longrightarrow> b \<in> set (butlast (blocks n xs)) \<Longrightarrow> length b = n"
proof (induction n xs rule: blocks.induct)
  case (1 n xs)
  show ?case
  proof (cases "xs = []")
    case True
    with "1.prems" show ?thesis by (simp add: blocks_Nil)
  next
    case False
    show ?thesis
    proof (cases "drop n xs = []")
      case True
      with False "1.prems" show ?thesis by (simp add: blocks_step blocks_Nil)
    next
      case dn: False
      then have lt: "n < length xs" by simp
      have eq: "blocks n xs = take n xs # blocks n (drop n xs)"
        using False "1.prems"(1) by (rule_tac blocks_step)
      have ne: "blocks n (drop n xs) \<noteq> []"
        using dn "1.prems"(1) by (simp only: blocks_eq_Nil) simp
      from "1.prems"(2) have "b = take n xs \<or> b \<in> set (butlast (blocks n (drop n xs)))"
        unfolding eq using ne by simp
      then show ?thesis
      proof
        assume "b = take n xs"
        with lt show ?thesis by simp
      next
        assume "b \<in> set (butlast (blocks n (drop n xs)))"
        with "1.IH" False "1.prems"(1) show ?thesis by simp
      qed
    qed
  qed
qed

lemma blocks_last_length:
  "0 < n \<Longrightarrow> xs \<noteq> [] \<Longrightarrow>
   length (last (blocks n xs)) = (if length xs mod n = 0 then n else length xs mod n)"
proof (induction n xs rule: blocks.induct)
  case (1 n xs)
  show ?case
  proof (cases "drop n xs = []")
    case True
    then have le: "length xs \<le> n" by simp
    have pos: "0 < length xs" using "1.prems" by simp
    show ?thesis
    proof (cases "length xs = n")
      case True
      with "1.prems" le show ?thesis by (simp add: blocks_short)
    next
      case False
      with le have "length xs < n" by simp
      with "1.prems" pos show ?thesis by (simp add: blocks_short)
    qed
  next
    case False
    then have lt: "n < length xs" by simp
    have "length (last (blocks n (drop n xs)))
        = (if length (drop n xs) mod n = 0 then n else length (drop n xs) mod n)"
      using "1.IH" "1.prems" False by simp
    moreover have "(length xs - n) mod n = length xs mod n"
      using lt by (simp add: le_mod_geq)
    ultimately show ?thesis
      using "1.prems" False by (simp add: blocks_step blocks_eq_Nil)
  qed
qed

lemma sliceLoop_blocks:
  assumes "0 < n"
  shows "\<exists>ys r. sliceLoop n xs = Some (ys, r) \<and> length r < n
           \<and> (\<forall>zs. blocks n (xs @ zs) = ys @ blocks n (r @ zs))"
proof (induction xs rule: length_induct)
  case (1 xs)
  show ?case
  proof (cases "n \<le> length xs")
    case False
    then show ?thesis by (subst sliceLoop.simps) simp
  next
    case True
    with assms have "length (drop n xs) < length xs" by simp
    with 1 obtain ys r where ih: "sliceLoop n (drop n xs) = Some (ys, r)" "length r < n"
      "\<forall>zs. blocks n (drop n xs @ zs) = ys @ blocks n (r @ zs)" by blast
    have ne: "xs \<noteq> []" using True assms by auto
    have "blocks n (xs @ zs) = (take n xs # ys) @ blocks n (r @ zs)" for zs
      using True assms ne ih(3) by (simp add: blocks_step)
    moreover have "sliceLoop n xs = Some (take n xs # ys, r)"
      using True ih(1) by (subst sliceLoop.simps) simp
    ultimately show ?thesis using ih(2) by blast
  qed
qed

lemma readLoop_blocks:
  assumes "0 < n"
  shows "length b < n \<Longrightarrow> readLoop n b reads = Some (blocks n (b @ concat reads))"
proof (induction reads arbitrary: b)
  case Nil
  then show ?case using assms by (cases "b = []") (simp_all add: blocks_Nil blocks_short)
next
  case (Cons v reads)
  obtain ys r where s: "sliceLoop n (b @ v) = Some (ys, r)" "length r < n"
    "\<forall>zs. blocks n ((b @ v) @ zs) = ys @ blocks n (r @ zs)"
    using sliceLoop_blocks [OF assms, of "b @ v"] by blast
  have "readLoop n r reads = Some (blocks n (r @ concat reads))"
    using Cons.IH s(2) by simp
  with s show ?case by simp
qed

lemma chunkStream_blocks:
  "0 < n \<Longrightarrow> chunkStream reads n = Some (blocks n (concat reads))"
  using readLoop_blocks [of n "[]" reads] by (simp add: chunkStream_def)

lemma sliceLoop_positive:
  assumes "sliceLoop n buf = Some y"
  shows "0 < n"
proof (rule sliceLoop.raw_induct [where P = "\<lambda>n buf y. 0 < n", OF _ assms])
  fix f :: "nat \<Rightarrow> byte list \<Rightarrow> (byte list list \<times> byte list) option"
    and k :: nat and b :: "byte list" and r
  assume ih: "\<And>k' b' r'. f k' b' = Some r' \<Longrightarrow> 0 < k'"
    and body: "(if k \<le> length b
                then Option.bind (f k (drop k b)) (\<lambda>(ys, rest). Some (take k b # ys, rest))
                else Some ([], b)) = Some r"
  show "0 < k"
  proof (cases "k \<le> length b")
    case True
    with body obtain r' where "f k (drop k b) = Some r'"
      by (auto simp: bind_eq_Some_conv)
    then show ?thesis by (rule ih)
  next
    case False
    then show ?thesis by simp
  qed
qed

lemma sliceLoop_zero: "sliceLoop 0 buf = None"
  using sliceLoop_positive [of 0 buf] by (cases "sliceLoop 0 buf") auto

lemma chunkStream_zero: "chunkStream (v # reads) 0 = None"
  by (simp add: chunkStream_def sliceLoop_zero)

lemma bytesPerChunk_value: "CONFIG_bytesPerChunk = 3840"
  by (simp add: CONFIG_bytesPerChunk_def CONFIG_samplesPerChunk_def CONFIG_sampleRate_def
      CONFIG_chunkDurationMs_def CONFIG_channels_def CONFIG_bitDepth_def)

lemma length_blocks: "0 < n \<Longrightarrow> length (blocks n xs) = (length xs + n - 1) div n"
proof (induction n xs rule: blocks.induct)
  case (1 n xs)
  show ?case
  proof (cases "xs = []")
    case True
    with "1.prems" show ?thesis by (simp add: blocks_Nil)
  next
    case False
    show ?thesis
    proof (cases "length xs \<le> n")
      case True
      have pos: "0 < length xs" using False by simp
      have "n * 1 \<le> length xs + n - 1" using pos by arith
      moreover have "length xs + n - 1 < n * Suc 1" using pos True "1.prems" by arith
      ultimately have "(length xs + n - 1) div n = 1"
        by (rule div_nat_eqI)
      moreover have "blocks n xs = [xs]"
        using "1.prems" False True by (rule blocks_short)
      ultimately show ?thesis by simp
    next
      case gt: False
      have eq: "blocks n xs = take n xs # blocks n (drop n xs)"
        using False "1.prems" by (rule_tac blocks_step)
      have ih: "length (blocks n (drop n xs)) = (length (drop n xs) + n - 1) div n"
        using "1.IH" False "1.prems" by simp
      define k where "k = length xs - n"
      have len: "length xs = k + n" using gt by (simp add: k_def)
      have "k + n + n - 1 = (k + n - 1) + n" using "1.prems" by arith
      then have "(k + n + n - 1) div n = (k + n - 1 + n) div n" by (rule arg_cong)
      also have "\<dots> = Suc ((k + n - 1) div n)" using "1.prems" by (simp only: div_add_self2)
      finally have "(length xs + n - 1) div n = Suc ((length (drop n xs) + n - 1) div n)"
        by (simp add: len)
      then show ?thesis unfolding eq using ih by simp
    qed
  qed
qed

section \<open>Properties of the source\<close>

lemma audioPayloads_append: "audioPayloads (xs @ ys) = audioPayloads xs @ audioPayloads ys"
  by (induction xs rule: audioPayloads.induct) simp_all

lemma sendToReady_frame:
  "sendToReady m cs st = st\<lparr> sockets := sockets (sendToReady m cs st) \<rparr>"
proof (induction cs arbitrary: st)
  case Nil
  then show ?case by simp
next
  case (Cons a cs)
  obtain k client where a: "a = (k, client)" by (cases a)
  show ?case
  proof (cases "isReady client")
    case True
    have "sendToReady m (a # cs) st = sendToReady m cs (send (client_ws client) m st)"
      using True a by simp
    also have "\<dots> = (send (client_ws client) m st)
                      \<lparr> sockets := sockets (sendToReady m cs (send (client_ws client) m st)) \<rparr>"
      by (rule Cons.IH)
    finally show ?thesis using True a by (simp add: send_def)
  next
    case False
    with a Cons.IH [of st] show ?thesis by simp
  qed
qed

lemma sendToReady_sockets:
  "sockets (sendToReady m cs st) w
     = sockets st w @ replicate (length (filter (\<lambda>(k, c). isReady c \<and> client_ws c = w) cs)) m"
proof (induction cs arbitrary: st)
  case Nil
  then show ?case by simp
next
  case (Cons a cs)
  obtain k client where a: "a = (k, client)" by (cases a)
  show ?case using a Cons.IH by (simp add: send_def replicate_append_same)
qed

lemma wfClients_Cons:
  "wfClients ((k, c) # cs) \<longleftrightarrow>
     k \<notin> fst ` set cs \<and> client_id c = k \<and> client_ws c = k \<and> wfClients cs"
  by (auto simp: wfClients_def)

lemma wfClients_count:
  "wfClients cs \<Longrightarrow>
   length (filter (\<lambda>(k, c). isReady c \<and> client_ws c = w) cs) = (if readyOn cs w then 1 else 0)"
proof (induction cs)
  case Nil
  then show ?case by (simp add: readyOn_def)
next
  case (Cons a cs)
  obtain k c where a: "a = (k, c)" by (cases a)
  from Cons.prems a have wf: "k \<notin> fst ` set cs" "client_ws c = k" "wfClients cs"
    by (simp_all add: wfClients_Cons)
  show ?case
  proof (cases "k = w")
    case True
    have none: "filter (\<lambda>(k, c). isReady c \<and> client_ws c = w) cs = []"
    proof -
      have "\<forall>(k', c') \<in> set cs. client_ws c' \<noteq> w"
      proof (clarify)
        fix k' c' assume m: "(k', c') \<in> set cs" and "w = client_ws c'"
        from wf(3) m have "client_ws c' = k'" by (auto simp: wfClients_def)
        with m \<open>w = client_ws c'\<close> True wf(1) show False by force
      qed
      then show ?thesis by (auto simp: filter_empty_conv)
    qed
    show ?thesis using True a wf(2) none by (simp add: readyOn_def)
  next
    case False
    with a wf Cons.IH show ?thesis by (simp add: readyOn_def)
  qed
qed

lemma broadcastChunk_sockets:
  assumes "wfClients (clients st)"
  shows "sockets (broadcastChunk pcmData tNow st) w
       = sockets st w @
         (if readyOn (clients st) w
          then [AUDIO_CHUNK \<lparr> timestamp = tNow, sequence = server_sequence st, data = pcmData \<rparr>]
          else [])"
  using wfClients_count [OF assms, of w]
  by (simp add: broadcastChunk_def Let_def sendToReady_sockets)

lemma broadcastChunk_frame:
  "clients (broadcastChunk pcmData tNow st) = clients st"
  "isRunning (broadcastChunk pcmData tNow st) = isRunning st"
  "capture (broadcastChunk pcmData tNow st) = capture st"
  "server_sequence (broadcastChunk pcmData tNow st) = server_sequence st + 1"
proof -
  let ?st1 = "st\<lparr> server_sequence := server_sequence st + 1 \<rparr>"
  let ?m = "AUDIO_CHUNK \<lparr> timestamp = tNow, sequence = server_sequence st, data = pcmData \<rparr>"
  have eq: "broadcastChunk pcmData tNow st
          = ?st1\<lparr> sockets := sockets (sendToReady ?m (clients ?st1) ?st1) \<rparr>"
    unfolding broadcastChunk_def Let_def by (rule sendToReady_frame)
  show "clients (broadcastChunk pcmData tNow st) = clients st"
    and "isRunning (broadcastChunk pcmData tNow st) = isRunning st"
    and "capture (broadcastChunk pcmData tNow st) = capture st"
    and "server_sequence (broadcastChunk pcmData tNow st) = server_sequence st + 1"
    by (simp_all add: eq)
qed

lemma streamLoop_payloads:
  assumes "wfClients (clients st)" and "isRunning st"
  shows "audioPayloads (sockets (streamLoop clk i chunks st) w)
       = audioPayloads (sockets st w) @ (if readyOn (clients st) w then chunks else [])"
  using assms
proof (induction chunks arbitrary: st i)
  case Nil
  then show ?case by simp
next
  case (Cons pcmData rest)
  let ?st1 = "broadcastChunk pcmData (clk i) st"
  have wf1: "wfClients (clients ?st1)" and run1: "isRunning ?st1"
    using Cons.prems by (simp_all add: broadcastChunk_frame)
  have "audioPayloads (sockets (streamLoop clk (Suc i) rest ?st1) w)
      = audioPayloads (sockets ?st1 w) @ (if readyOn (clients ?st1) w then rest else [])"
    by (rule Cons.IH [OF wf1 run1])
  then show ?case
    using Cons.prems
    by (simp add: broadcastChunk_frame broadcastChunk_sockets audioPayloads_append)
qed

subsection \<open>The table of sinks\<close>

lemma set_update_subset: "(k', c) \<in> set (AList.update k v al) \<Longrightarrow> (k', c) = (k, v) \<or> (k', c) \<in> set al"
  by (induction al) (auto split: if_splits)

lemma set_delete_subset: "(k', c) \<in> set (AList.delete k al) \<Longrightarrow> (k', c) \<in> set al"
  by (induction al) (auto split: if_splits)

lemma wfClients_update:
  assumes "wfClients cs" and "client_id v = k" and "client_ws v = k"
  shows "wfClients (AList.update k v cs)"
  using assms by (auto simp: wfClients_def distinct_update dest: set_update_subset)

lemma wfClients_delete: "wfClients cs \<Longrightarrow> wfClients (AList.delete k cs)"
  by (auto simp: wfClients_def distinct_delete dest: set_delete_subset)

lemma wfClients_map_of:
  "wfClients cs \<Longrightarrow> map_of cs k = Some c \<Longrightarrow> client_id c = k \<and> client_ws c = k"
  by (auto simp: wfClients_def dest: map_of_SomeD)

lemma readyOn_update:
  "readyOn (AList.update k v cs) w = (if w = k then isReady v else readyOn cs w)"
  by (simp add: readyOn_def update_conv')

lemma readyOn_delete:
  "readyOn (AList.delete k cs) w = (if w = k then False else readyOn cs w)"
  by (simp add: readyOn_def delete_conv')

subsection \<open>The callbacks of the source\<close>

lemma onOpen_clients:
  "clients (onOpen cid st)
     = AList.update cid \<lparr> client_id = cid, client_ws = cid, isReady = False \<rparr> (clients st)"
  by (simp add: onOpen_def send_def Let_def)

lemma onOpen_payloads: "audioPayloads (sockets (onOpen cid st) w) = audioPayloads (sockets st w)"
  by (simp add: onOpen_def send_def Let_def audioPayloads_append)

lemma handleMessage_server_payloads:
  "audioPayloads (sockets (handleMessage_server w' m tr ts st) w) = audioPayloads (sockets st w)"
  by (cases m)
     (simp_all add: handleMessage_server_def send_def processSyncRequest_def audioPayloads_append
        split: option.splits)

lemma handleMessage_server_wf:
  "wfClients (clients st) \<Longrightarrow> wfClients (clients (handleMessage_server w m tr ts st))"
  by (cases m)
     (auto simp: handleMessage_server_def send_def split: option.splits
        dest: wfClients_map_of intro!: wfClients_update)

lemma handleMessage_server_readyOn:
  "readyOn (clients (handleMessage_server w' m tr ts st)) w
     = (readyOn (clients st) w
        \<or> (w = w' \<and> (\<exists>cid. m = CLIENT_READY cid) \<and> map_of (clients st) w \<noteq> None))"
proof (cases m)
  case (CLIENT_READY cid)
  show ?thesis
  proof (cases "map_of (clients st) w'")
    case None
    then show ?thesis using CLIENT_READY
      by (auto simp: handleMessage_server_def)
  next
    case (Some client)
    then show ?thesis using CLIENT_READY
      by (auto simp: handleMessage_server_def readyOn_update)
  qed
qed (simp_all add: handleMessage_server_def send_def)

lemma serverEvent_wf:
  "wfClients (clients st) \<Longrightarrow> wfClients (clients (serverEvent ev st))"
  by (cases ev)
     (simp_all add: onOpen_clients wfClients_update onClose_def wfClients_delete
        handleMessage_server_wf broadcastChunk_frame)

lemma serverEvent_becomes_ready:
  assumes "\<not> readyOn (clients st) w" and "readyOn (clients (serverEvent ev st)) w"
  shows "\<exists>cid tRecv tSend. ev = Incoming w (CLIENT_READY cid) tRecv tSend"
proof (cases ev)
  case (Open cid)
  with assms show ?thesis by (simp add: onOpen_clients readyOn_update split: if_splits)
next
  case (Incoming w' m tr ts)
  with assms show ?thesis by (auto simp: handleMessage_server_readyOn)
next
  case (Close cid)
  with assms show ?thesis by (simp add: onClose_def readyOn_delete split: if_splits)
next
  case (Chunk pcm t)
  with assms show ?thesis by (simp add: broadcastChunk_frame split: if_splits)
qed

lemma serverEvent_payloads:
  assumes "wfClients (clients st)" and "\<not> readyOn (clients st) w"
  shows "audioPayloads (sockets (serverEvent ev st) w) = audioPayloads (sockets st w)"
proof (cases ev)
  case (Open cid)
  then show ?thesis by (simp add: onOpen_payloads)
next
  case (Incoming w' m tr ts)
  then show ?thesis by (simp add: handleMessage_server_payloads)
next
  case (Close cid)
  then show ?thesis by (simp add: onClose_def)
next
  case (Chunk pcm t)
  then show ?thesis using assms by (simp add: broadcastChunk_sockets)
qed

lemma serverRun_snoc: "serverRun (evs @ [ev]) st = serverEvent ev (serverRun evs st)"
  by (simp add: serverRun_def)

lemma serverRun_wf: "wfClients (clients st) \<Longrightarrow> wfClients (clients (serverRun evs st))"
  by (induction evs rule: rev_induct) (simp_all add: serverRun_def serverEvent_wf)

lemma serverRun_audio_needs_ready:
  assumes "wfClients (clients st)" and "\<not> readyOn (clients st) w"
  shows "(readyOn (clients (serverRun evs st)) w
          \<or> audioPayloads (sockets (serverRun evs st) w) \<noteq> audioPayloads (sockets st w))
         \<longrightarrow> (\<exists>cid tRecv tSend. Incoming w (CLIENT_READY cid) tRecv tSend \<in> set evs)"
proof (induction evs rule: rev_induct)
  case Nil
  then show ?case using assms by (simp add: serverRun_def)
next
  case (snoc ev evs)
  let ?s = "serverRun evs st"
  have wf: "wfClients (clients ?s)" using assms(1) by (rule serverRun_wf)
  show ?case
  proof (cases "\<exists>cid tRecv tSend. Incoming w (CLIENT_READY cid) tRecv tSend \<in> set evs")
    case True
    then show ?thesis by auto
  next
    case False
    with snoc have nr: "\<not> readyOn (clients ?s) w"
      and same: "audioPayloads (sockets ?s w) = audioPayloads (sockets st w)" by auto
    have p: "audioPayloads (sockets (serverEvent ev ?s) w) = audioPayloads (sockets st w)"
      using serverEvent_payloads [OF wf nr] same by simp
    show ?thesis
    proof (cases "readyOn (clients (serverEvent ev ?s)) w")
      case True
      from serverEvent_becomes_ready [OF nr True] show ?thesis by auto
    next
      case False
      with p show ?thesis by (simp add: serverRun_snoc)
    qed
  qed
qed

lemma initialServerState_wf: "wfClients (clients (initialServerState t0))"
  by (simp add: initialServerState_def wfClients_def)

lemma handleMessage_server_ready_idem:
  "handleMessage_server w (CLIENT_READY cid) tr ts
     (handleMessage_server w (CLIENT_READY cid') tr' ts' st)
   = handleMessage_server w (CLIENT_READY cid') tr' ts' st"
  by (cases "map_of (clients st) w") (simp_all add: handleMessage_server_def update_conv')

subsection \<open>Runs with other callbacks between the passes of the loop\<close>

lemma serverEvent_isRunning: "isRunning (serverEvent ev st) = isRunning st"
proof (cases ev)
  case (Incoming w m tr ts)
  then show ?thesis
    by (cases m) (simp_all add: handleMessage_server_def send_def split: option.splits)
qed (simp_all add: onOpen_def send_def Let_def onClose_def broadcastChunk_frame)

lemma serverEvent_keeps_ready:
  assumes "readyOn (clients st) w" and "ev \<noteq> Open w" and "ev \<noteq> Close w"
  shows "readyOn (clients (serverEvent ev st)) w"
proof (cases ev)
  case (Open cid)
  with assms show ?thesis by (simp add: onOpen_clients readyOn_update)
next
  case (Incoming w' m tr ts)
  with assms show ?thesis by (simp add: handleMessage_server_readyOn)
next
  case (Close cid)
  with assms show ?thesis by (simp add: onClose_def readyOn_delete)
next
  case (Chunk pcm t)
  with assms show ?thesis by (simp add: broadcastChunk_frame)
qed

lemma serverEvent_ready_payloads:
  assumes "wfClients (clients st)" and "isRunning st" and "readyOn (clients st) w"
  shows "audioPayloads (sockets (serverEvent ev st) w)
       = audioPayloads (sockets st w) @ chunkPayloads [ev]"
proof (cases ev)
  case (Open cid)
  then show ?thesis by (simp add: onOpen_payloads)
next
  case (Incoming w' m tr ts)
  then show ?thesis by (simp add: handleMessage_server_payloads)
next
  case (Close cid)
  then show ?thesis by (simp add: onClose_def)
next
  case (Chunk pcm t)
  then show ?thesis using assms by (simp add: broadcastChunk_sockets audioPayloads_append)
qed

lemma chunkPayloads_Cons: "chunkPayloads (ev # evs) = chunkPayloads [ev] @ chunkPayloads evs"
  by (cases ev) simp_all

lemma serverRun_Cons: "serverRun (ev # evs) st = serverRun evs (serverEvent ev st)"
  by (simp add: serverRun_def)

lemma serverRun_ready_payloads:
  assumes "wfClients (clients st)" and "isRunning st" and "readyOn (clients st) w"
    and "\<forall>ev \<in> set evs. ev \<noteq> Open w \<and> ev \<noteq> Close w"
  shows "audioPayloads (sockets (serverRun evs st) w)
       = audioPayloads (sockets st w) @ chunkPayloads evs"
  using assms
proof (induction evs arbitrary: st)
  case Nil
  then show ?case by (simp add: serverRun_def)
next
  case (Cons ev evs)
  let ?st1 = "serverEvent ev st"
  have wf1: "wfClients (clients ?st1)" using Cons.prems(1) by (rule serverEvent_wf)
  have run1: "isRunning ?st1" using Cons.prems(2) by (simp add: serverEvent_isRunning)
  have rd1: "readyOn (clients ?st1) w"
    using Cons.prems(3,4) by (intro serverEvent_keeps_ready) simp_all
  have rest: "\<forall>ev \<in> set evs. ev \<noteq> Open w \<and> ev \<noteq> Close w" using Cons.prems(4) by simp
  have "audioPayloads (sockets (serverRun evs ?st1) w)
      = audioPayloads (sockets ?st1 w) @ chunkPayloads evs"
    by (rule Cons.IH [OF wf1 run1 rd1 rest])
  also have "audioPayloads (sockets ?st1 w) = audioPayloads (sockets st w) @ chunkPayloads [ev]"
    by (rule serverEvent_ready_payloads [OF Cons.prems(1,2,3)])
  finally show ?case
    unfolding serverRun_Cons by (subst chunkPayloads_Cons) simp
qed

subsection \<open>A source with one ready sink\<close>

lemma readyServer_fields:
  "clients (readyServer reads) = [(''a'', \<lparr> client_id = ''a'', client_ws = ''a'', isReady = True \<rparr>)]"
  "capture (readyServer reads) = Some \<lparr> stream = reads, killed = False \<rparr>"
  "isRunning (readyServer reads)"
  "audioPayloads (sockets (readyServer reads) ''a'') = []"
  by (simp_all add: readyServer_def serverRun_def startCapture_def initialServerState_def
      onOpen_def send_def handleMessage_server_def Let_def)

lemma readyServer_ready:
  "wfClients (clients (readyServer reads))" "readyOn (clients (readyServer reads)) ''a''"
  by (simp_all add: readyServer_fields wfClients_def readyOn_def)

lemma processAudioStream_Some:
  assumes "capture st = Some cap"
  shows "processAudioStream clk st
       = Some (stopCapture (streamLoop clk 0
                 (blocks CONFIG_bytesPerChunk (concat (stream cap))) st))"
proof -
  have "chunkStream (stream cap) CONFIG_bytesPerChunk
      = Some (blocks CONFIG_bytesPerChunk (concat (stream cap)))"
    by (rule chunkStream_blocks) (simp add: bytesPerChunk_value)
  then show ?thesis using assms by (simp add: processAudioStream_def)
qed

lemma processAudioStream_sent:
  assumes "wfClients (clients st)" and "isRunning st" and "capture st = Some cap"
    and "readyOn (clients st) w"
  shows "processAudioStream clk st = Some st' \<Longrightarrow>
         audioPayloads (sockets st' w)
           = audioPayloads (sockets st w) @ blocks CONFIG_bytesPerChunk (concat (stream cap))"
  using streamLoop_payloads [OF assms(1,2), of clk 0 _ w] assms(4)
  by (auto simp: processAudioStream_Some [OF assms(3)] stopCapture_def)

lemma one_byte_example:
  "processAudioStream (constClock 0) (readyServer [[1]]) \<noteq> None"
  "audioPayloads (sockets (the (processAudioStream (constClock 0) (readyServer [[1]]))) ''a'')
     = [[1]]"
proof -
  obtain st' where s: "processAudioStream (constClock 0) (readyServer [[1]]) = Some st'"
    using processAudioStream_Some [OF readyServer_fields(2)] by blast
  have "audioPayloads (sockets st' ''a'')
      = audioPayloads (sockets (readyServer [[1]]) ''a'')
        @ blocks CONFIG_bytesPerChunk (concat (stream \<lparr> stream = [[1]], killed = False \<rparr>))"
    using readyServer_ready(1) readyServer_fields(3) readyServer_fields(2)
      readyServer_ready(2) s
    by (rule processAudioStream_sent)
  then have "audioPayloads (sockets st' ''a'') = [[1]]"
    by (simp add: readyServer_fields blocks_short bytesPerChunk_value)
  with s show "processAudioStream (constClock 0) (readyServer [[1]]) \<noteq> None"
    and "audioPayloads (sockets (the (processAudioStream (constClock 0) (readyServer [[1]]))) ''a'')
           = [[1]]"
    by simp_all
qed

subsection \<open>The claims about the source\<close>

text \<open>
  \<^bold>\<open>C2.\<close> Let the source be running with a capture whose reads concatenate
  to a byte stream of length \<open>L\<close>, and let a sink be ready on socket \<open>w\<close>. Then
  \<^verbatim>\<open>processAudioStream\<close> returns, and the audio payloads it sends on \<open>w\<close> are the stream
  cut into blocks of \<open>bytesPerChunk = 3840\<close> bytes in source order, the trailing partial
  block included: their concatenation is the whole stream, \<open>L\<close> bytes in all; every
  block but the last has \<open>bytesPerChunk\<close> bytes; the last has \<open>L mod bytesPerChunk\<close>
  bytes when that is not zero; and there are \<open>\<lceil>L / bytesPerChunk\<rceil>\<close> blocks. When other
  callbacks run between the passes of the loop and the sink neither reconnects nor
  disconnects, every pass still sends its block on \<open>w\<close>.
\<close>

theorem stream_delivered_in_blocks:
  assumes "wfClients (clients st)" and "isRunning st" and "capture st = Some cap"
    and "readyOn (clients st) w"
  shows "CONFIG_bytesPerChunk = 3840
       \<and> (case processAudioStream clk st of
            None \<Rightarrow> False
          | Some st' \<Rightarrow>
              audioPayloads (sockets st' w)
                = audioPayloads (sockets st w)
                  @ blocks CONFIG_bytesPerChunk (concat (stream cap)))
       \<and> concat (blocks CONFIG_bytesPerChunk (concat (stream cap))) = concat (stream cap)
       \<and> length (concat (blocks CONFIG_bytesPerChunk (concat (stream cap))))
           = length (concat (stream cap))
       \<and> (\<forall>b \<in> set (butlast (blocks CONFIG_bytesPerChunk (concat (stream cap)))).
             length b = CONFIG_bytesPerChunk)
       \<and> (concat (stream cap) \<noteq> [] \<longrightarrow>
             length (last (blocks CONFIG_bytesPerChunk (concat (stream cap))))
               = (if length (concat (stream cap)) mod CONFIG_bytesPerChunk = 0
                  then CONFIG_bytesPerChunk
                  else length (concat (stream cap)) mod CONFIG_bytesPerChunk))
       \<and> length (blocks CONFIG_bytesPerChunk (concat (stream cap)))
           = (length (concat (stream cap)) + CONFIG_bytesPerChunk - 1) div CONFIG_bytesPerChunk
       \<and> ((\<forall>ev \<in> set evs. ev \<noteq> Open w \<and> ev \<noteq> Close w) \<longrightarrow>
             audioPayloads (sockets (serverRun evs st) w)
               = audioPayloads (sockets st w) @ chunkPayloads evs)"
proof -
  have pos: "0 < CONFIG_bytesPerChunk" by (simp add: bytesPerChunk_value)
  have runs: "(\<forall>ev \<in> set evs. ev \<noteq> Open w \<and> ev \<noteq> Close w) \<longrightarrow>
             audioPayloads (sockets (serverRun evs st) w)
               = audioPayloads (sockets st w) @ chunkPayloads evs"
    using serverRun_ready_payloads [OF assms(1,2,4)] by blast
  obtain st' where s: "processAudioStream clk st = Some st'"
    using processAudioStream_Some [OF assms(3)] by blast
  have sent: "audioPayloads (sockets st' w)
            = audioPayloads (sockets st w) @ blocks CONFIG_bytesPerChunk (concat (stream cap))"
    using assms s by (rule processAudioStream_sent)
  have full: "\<forall>b \<in> set (butlast (blocks CONFIG_bytesPerChunk (concat (stream cap)))).
                length b = CONFIG_bytesPerChunk"
    using blocks_butlast_full [OF pos] by blast
  have lst: "concat (stream cap) \<noteq> [] \<longrightarrow>
             length (last (blocks CONFIG_bytesPerChunk (concat (stream cap))))
               = (if length (concat (stream cap)) mod CONFIG_bytesPerChunk = 0
                  then CONFIG_bytesPerChunk
                  else length (concat (stream cap)) mod CONFIG_bytesPerChunk)"
    using blocks_last_length [OF pos] by blast
  have res: "case processAudioStream clk st of
               None \<Rightarrow> False
             | Some st' \<Rightarrow>
                 audioPayloads (sockets st' w)
                   = audioPayloads (sockets st w)
                     @ blocks CONFIG_bytesPerChunk (concat (stream cap))"
    using s sent by simp
  have cc: "concat (blocks CONFIG_bytesPerChunk (concat (stream cap))) = concat (stream cap)"
    by (rule concat_blocks [OF pos])
  have tot: "length (concat (blocks CONFIG_bytesPerChunk (concat (stream cap))))
           = length (concat (stream cap))"
    by (simp only: cc)
  have len: "length (blocks CONFIG_bytesPerChunk (concat (stream cap)))
           = (length (concat (stream cap)) + CONFIG_bytesPerChunk - 1) div CONFIG_bytesPerChunk"
    by (rule length_blocks [OF pos])
  show ?thesis
    using bytesPerChunk_value res cc tot full lst len runs by (intro conjI) assumption+
qed

theorem stream_delivered_in_blocks_witness:
  "wfClients (clients (readyServer [[1, 2], [3]]))
   \<and> isRunning (readyServer [[1, 2], [3]])
   \<and> capture (readyServer [[1, 2], [3]]) = Some \<lparr> stream = [[1, 2], [3]], killed = False \<rparr>
   \<and> readyOn (clients (readyServer [[1, 2], [3]])) ''a''
   \<and> (case processAudioStream (constClock 0) (readyServer [[1, 2], [3]]) of
         None \<Rightarrow> False
       | Some st' \<Rightarrow> audioPayloads (sockets st' ''a'') = [[1, 2, 3]])"
proof -
  have b: "blocks CONFIG_bytesPerChunk [1, 2, 3 :: byte] = [[1, 2, 3]]"
    by (simp add: blocks_short bytesPerChunk_value)
  have "case processAudioStream (constClock 0) (readyServer [[1, 2], [3]]) of
          None \<Rightarrow> False
        | Some st' \<Rightarrow>
            audioPayloads (sockets st' ''a'')
              = audioPayloads (sockets (readyServer [[1, 2], [3]]) ''a'')
                @ blocks CONFIG_bytesPerChunk
                    (concat (stream \<lparr> stream = [[1, 2], [3]], killed = False \<rparr>))"
    using stream_delivered_in_blocks [where st = "readyServer [[1, 2], [3]]" and w = "''a''"
        and clk = "constClock 0", OF readyServer_ready(1) readyServer_fields(3)
        readyServer_fields(2) readyServer_ready(2)]
    by (rule_tac conjunct1 [OF conjunct2])
  then show ?thesis
    by (simp add: readyServer_fields wfClients_def readyOn_def b split: option.splits)
qed

text \<open>
  A capture stream of one byte: \<^verbatim>\<open>processAudioStream\<close> returns and the ready sink has
  been sent one byte, not \<open>\<lfloor>1 / 3840\<rfloor> \<times> 3840 = 0\<close> bytes.
\<close>

theorem trailing_block_counterexample:
  "processAudioStream (constClock 0) (readyServer [[1]]) \<noteq> None
   \<and> length (concat (audioPayloads
        (sockets (the (processAudioStream (constClock 0) (readyServer [[1]]))) ''a'')))
      \<noteq> length (concat [[1 :: byte]]) div CONFIG_bytesPerChunk * CONFIG_bytesPerChunk"
  by (simp only: one_byte_example) (simp add: bytesPerChunk_value)

text \<open>
  \<^bold>\<open>C9.\<close> One pass of the streaming loop sends the chunk on socket \<open>w\<close> exactly when the
  table holds a ready sink for \<open>w\<close>, and sends nothing on \<open>w\<close> otherwise. A sink that is
  not ready becomes ready only by a \<^verbatim>\<open>client_ready\<close> message arriving on its own socket;
  a sink that has just connected is not ready; handling \<^verbatim>\<open>client_ready\<close> a second time
  changes nothing. In any run of the source from its initial state, a socket that has
  been sent an audio chunk has sent \<^verbatim>\<open>client_ready\<close> before.
\<close>

theorem broadcast_only_to_ready:
  assumes "wfClients (clients st)"
  shows "sockets (broadcastChunk pcmData tNow st) w
           = sockets st w @
             (if readyOn (clients st) w
              then [AUDIO_CHUNK \<lparr> timestamp = tNow, sequence = server_sequence st,
                                  data = pcmData \<rparr>]
              else [])
       \<and> (\<not> readyOn (clients st) w \<and> readyOn (clients (serverEvent ev st)) w \<longrightarrow>
            (\<exists>cid tRecv tSend. ev = Incoming w (CLIENT_READY cid) tRecv tSend))
       \<and> \<not> readyOn (clients (onOpen w st)) w
       \<and> handleMessage_server w (CLIENT_READY cid) tr ts
            (handleMessage_server w (CLIENT_READY cid') tr' ts' st)
           = handleMessage_server w (CLIENT_READY cid') tr' ts' st
       \<and> (audioPayloads (sockets (serverRun evs (initialServerState t0)) w) \<noteq> [] \<longrightarrow>
            (\<exists>cid tRecv tSend. Incoming w (CLIENT_READY cid) tRecv tSend \<in> set evs))"
proof -
  have init: "\<not> readyOn (clients (initialServerState t0)) w"
    "audioPayloads (sockets (initialServerState t0) w) = []"
    by (simp_all add: initialServerState_def readyOn_def)
  have run: "audioPayloads (sockets (serverRun evs (initialServerState t0)) w) \<noteq> [] \<longrightarrow>
            (\<exists>cid tRecv tSend. Incoming w (CLIENT_READY cid) tRecv tSend \<in> set evs)"
    using serverRun_audio_needs_ready [OF initialServerState_wf init(1), of evs] init(2)
    by simp
  have flip: "\<not> readyOn (clients st) w \<and> readyOn (clients (serverEvent ev st)) w \<longrightarrow>
            (\<exists>cid tRecv tSend. ev = Incoming w (CLIENT_READY cid) tRecv tSend)"
    using serverEvent_becomes_ready by blast
  have fresh: "\<not> readyOn (clients (onOpen w st)) w"
    by (simp add: onOpen_clients readyOn_update)
  show ?thesis
    using broadcastChunk_sockets [OF assms, of pcmData tNow w] flip fresh run
      handleMessage_server_ready_idem [of w cid tr ts cid' tr' ts' st]
    by (intro conjI) simp_all
qed

theorem broadcast_only_to_ready_witness:
  "wfClients (clients (readyServer []))
   \<and> audioPayloads (sockets (broadcastChunk [7] 5 (readyServer [])) ''a'') = [[7]]
   \<and> sockets (broadcastChunk [7] 5 (readyServer [])) ''b'' = sockets (readyServer []) ''b''
   \<and> sockets (broadcastChunk [7] 5 (onOpen ''b'' (readyServer []))) ''b''
       = sockets (onOpen ''b'' (readyServer [])) ''b''"
proof -
  have nb: "\<not> readyOn (clients (readyServer [])) ''b''"
    by (simp add: readyServer_fields readyOn_def)
  have wf2: "wfClients (clients (onOpen ''b'' (readyServer [])))"
    by (simp add: onOpen_clients readyServer_fields wfClients_def)
  have nb2: "\<not> readyOn (clients (onOpen ''b'' (readyServer []))) ''b''"
    by (simp add: onOpen_clients readyOn_update)
  show ?thesis
    using broadcast_only_to_ready [where st = "readyServer []" and pcmData = "[7]"
        and tNow = 5 and w = "''a''", OF readyServer_ready(1)]
      broadcast_only_to_ready [where st = "readyServer []" and pcmData = "[7]"
        and tNow = 5 and w = "''b''", OF readyServer_ready(1)]
      broadcast_only_to_ready [where st = "onOpen ''b'' (readyServer [])" and pcmData = "[7]"
        and tNow = 5 and w = "''b''", OF wf2]
      readyServer_ready [of "[]"] nb nb2
    by (simp add: audioPayloads_append readyServer_fields)
qed

section \<open>Properties of the sink\<close>

subsection \<open>The binary search and the insertion\<close>

lemma searchLoop_bounds:
  assumes "sorted (map playTime buf)" and "low \<le> high" and "high \<le> length buf"
    and "\<forall>i<low. playTime (buf ! i) < playTime item"
    and "\<forall>i. high \<le> i \<and> i < length buf \<longrightarrow> playTime item \<le> playTime (buf ! i)"
  shows "low \<le> searchLoop buf item low high \<and> searchLoop buf item low high \<le> high
       \<and> (\<forall>i < searchLoop buf item low high. playTime (buf ! i) < playTime item)
       \<and> (\<forall>i. searchLoop buf item low high \<le> i \<and> i < length buf
              \<longrightarrow> playTime item \<le> playTime (buf ! i))"
  using assms
proof (induction buf item low high rule: searchLoop.induct)
  case (1 buf item low high)
  show ?case
  proof (cases "low < high")
    case False
    with "1.prems" have "low = high" by simp
    with "1.prems" show ?thesis by (simp add: searchLoop.simps [of buf item high high])
  next
    case True
    define mid where "mid = (low + high) div 2"
    have mid: "low \<le> mid" "mid < high" using True by (simp_all add: mid_def)
    then have midlen: "mid < length buf" using "1.prems"(3) by simp
    show ?thesis
    proof (cases "playTime (buf ! mid) < playTime item")
      case less: True
      have below: "\<forall>i<mid + 1. playTime (buf ! i) < playTime item"
      proof (intro allI impI)
        fix i assume "i < mid + 1"
        then have "i \<le> mid" by simp
        then have "playTime (buf ! i) \<le> playTime (buf ! mid)"
          using "1.prems"(1) midlen by (simp add: sorted_iff_nth_mono)
        with less show "playTime (buf ! i) < playTime item" by simp
      qed
      have eq: "searchLoop buf item low high = searchLoop buf item (mid + 1) high"
        using True less midlen by (subst searchLoop.simps) (simp add: mid_def Let_def)
      have ih: "mid + 1 \<le> searchLoop buf item (mid + 1) high
            \<and> searchLoop buf item (mid + 1) high \<le> high
            \<and> (\<forall>i < searchLoop buf item (mid + 1) high. playTime (buf ! i) < playTime item)
            \<and> (\<forall>i. searchLoop buf item (mid + 1) high \<le> i \<and> i < length buf
                   \<longrightarrow> playTime item \<le> playTime (buf ! i))"
        using "1.IH"(1) [OF True mid_def _ "1.prems"(1) _ "1.prems"(3) below "1.prems"(5)]
          less midlen mid by simp
      from ih mid show ?thesis unfolding eq by simp
    next
      case notless: False
      have above: "\<forall>i. mid \<le> i \<and> i < length buf \<longrightarrow> playTime item \<le> playTime (buf ! i)"
      proof (intro allI impI)
        fix i assume "mid \<le> i \<and> i < length buf"
        then have "playTime (buf ! mid) \<le> playTime (buf ! i)"
          using "1.prems"(1) by (simp add: sorted_iff_nth_mono)
        with notless show "playTime item \<le> playTime (buf ! i)" by simp
      qed
      have eq: "searchLoop buf item low high = searchLoop buf item low mid"
        using True notless by (subst searchLoop.simps) (simp add: mid_def Let_def)
      have ih: "low \<le> searchLoop buf item low mid
            \<and> searchLoop buf item low mid \<le> mid
            \<and> (\<forall>i < searchLoop buf item low mid. playTime (buf ! i) < playTime item)
            \<and> (\<forall>i. searchLoop buf item low mid \<le> i \<and> i < length buf
                   \<longrightarrow> playTime item \<le> playTime (buf ! i))"
        using "1.IH"(2) [OF True mid_def _ "1.prems"(1) _ _ "1.prems"(4) above]
          notless midlen mid by simp
      from ih mid show ?thesis unfolding eq by simp
    qed
  qed
qed

lemma searchLoop_takeWhile:
  assumes "sorted (map playTime buf)"
  shows "searchLoop buf item 0 (length buf)
       = length (takeWhile (\<lambda>b. playTime b < playTime item) buf)"
proof -
  define r where "r = searchLoop buf item 0 (length buf)"
  have b: "r \<le> length buf \<and> (\<forall>i<r. playTime (buf ! i) < playTime item)
       \<and> (\<forall>i. r \<le> i \<and> i < length buf \<longrightarrow> playTime item \<le> playTime (buf ! i))"
    using searchLoop_bounds [OF assms, of 0 "length buf" item] by (simp add: r_def)
  have "takeWhile (\<lambda>b. playTime b < playTime item) buf = take r buf"
  proof (rule takeWhile_eq_take_P_nth)
    fix i assume "i < r" "i < length buf"
    with b show "playTime (buf ! i) < playTime item" by simp
  next
    assume "r < length buf"
    with b have "playTime item \<le> playTime (buf ! r)" by simp
    then show "\<not> playTime (buf ! r) < playTime item" by simp
  qed
  with b show ?thesis by (simp add: r_def)
qed

lemma insertSorted_placement:
  assumes "sorted (map playTime buf)"
  shows "insertSorted buf item
       = takeWhile (\<lambda>b. playTime b < playTime item) buf
         @ item # dropWhile (\<lambda>b. playTime b < playTime item) buf"
  by (simp add: insertSorted_def Let_def searchLoop_takeWhile [OF assms]
      dropWhile_eq_drop takeWhile_eq_take [symmetric])

lemma sorted_dropWhile_ge:
  assumes "sorted (map playTime buf)"
    and "b \<in> set (dropWhile (\<lambda>b. playTime b < p) buf)"
  shows "p \<le> playTime b"
  using assms
proof (induction buf)
  case Nil
  then show ?case by simp
next
  case (Cons a buf)
  then show ?case by (auto split: if_splits)
qed

lemma insertSorted_sorted:
  assumes "sorted (map playTime buf)"
  shows "sorted (map playTime (insertSorted buf item))"
proof -
  let ?P = "\<lambda>b. playTime b < playTime item"
  have s1: "sorted (map playTime (takeWhile ?P buf))"
    using assms by (metis sorted_append map_append takeWhile_dropWhile_id)
  have s2: "sorted (map playTime (dropWhile ?P buf))"
    using assms by (metis sorted_append map_append takeWhile_dropWhile_id)
  have lo: "\<forall>b\<in>set (takeWhile ?P buf). playTime b < playTime item"
    by (auto dest: set_takeWhileD)
  have hi: "\<forall>b\<in>set (dropWhile ?P buf). playTime item \<le> playTime b"
    using sorted_dropWhile_ge [OF assms] by blast
  show ?thesis
    unfolding insertSorted_placement [OF assms]
    using s1 s2 lo hi by (fastforce simp: sorted_append)
qed

lemma set_insertSorted: "set (insertSorted buf item) = insert item (set buf)"
proof -
  have "set (take n buf) \<union> set (drop n buf) = set buf" for n
    by (metis append_take_drop_id set_append)
  then show ?thesis by (auto simp: insertSorted_def Let_def)
qed

lemma length_insertSorted: "length (insertSorted buf item) = Suc (length buf)"
  by (simp add: insertSorted_def Let_def)

subsection \<open>The overflow loop\<close>

lemma trimLoop_eq:
  "trimLoop st = st\<lparr> buffer := drop (trimCount (buffer st)) (buffer st),
                     droppedChunks := droppedChunks st + int (trimCount (buffer st)) \<rparr>"
proof (induction st rule: trimLoop.induct)
  case (1 st)
  show ?case
  proof (cases "buffer st")
    case Nil
    then show ?thesis by (subst trimLoop.simps) simp
  next
    case (Cons f rest)
    show ?thesis
    proof (cases "fsub (playTime (last (f # rest))) (playTime f) \<le> CONFIG_maxBufferMs")
      case True
      with Cons show ?thesis by (subst trimLoop.simps) simp
    next
      case False
      let ?st1 = "st\<lparr> buffer := tl (buffer st), droppedChunks := droppedChunks st + 1 \<rparr>"
      have step: "trimLoop st = trimLoop ?st1"
        using Cons False by (subst trimLoop.simps) (simp add: Let_def)
      have ih: "trimLoop ?st1 = ?st1\<lparr> buffer := drop (trimCount (buffer ?st1)) (buffer ?st1),
                  droppedChunks := droppedChunks ?st1 + int (trimCount (buffer ?st1)) \<rparr>"
        using "1.IH" [of "last (buffer st)" "hd (buffer st)"] Cons False by simp
      show ?thesis unfolding step ih using Cons False by simp
    qed
  qed
qed



lemma trimCount_le: "trimCount buf \<le> length buf"
  by (induction buf) simp_all

lemma trimCount_spanOk_zero: "spanOk buf \<Longrightarrow> trimCount buf = 0"
  by (cases buf) (simp_all add: spanOk_def)


subsection \<open>One audio chunk\<close>

lemma accountGap_eq:
  "accountGap c st = st\<lparr> droppedChunks := droppedChunks st + gapOf (lastSequence st) (sequence c) \<rparr>"
  by (simp add: accountGap_def gapOf_def Let_def)

lemma handleAudioChunk_late:
  assumes "isSynced (sync st)" and "playTimeOf c st < currentTime"
  shows "handleAudioChunk c currentTime st
       = st\<lparr> droppedChunks := droppedChunks st + gapOf (lastSequence st) (sequence c),
              lastSequence := sequence c,
              lateChunks := lateChunks st + 1 \<rparr>"
  using assms by (simp add: handleAudioChunk_def accountGap_eq playTimeOf_def Let_def)

lemma handleAudioChunk_ontime:
  assumes "isSynced (sync st)" and "\<not> playTimeOf c st < currentTime"
  shows "handleAudioChunk c currentTime st
       = st\<lparr> droppedChunks := droppedChunks st + gapOf (lastSequence st) (sequence c)
                  + int (trimCount (insertSorted (buffer st)
                                      \<lparr> chunk = c, playTime = playTimeOf c st \<rparr>)),
              lastSequence := sequence c,
              buffer := drop (trimCount (insertSorted (buffer st)
                                           \<lparr> chunk = c, playTime = playTimeOf c st \<rparr>))
                          (insertSorted (buffer st) \<lparr> chunk = c, playTime = playTimeOf c st \<rparr>) \<rparr>"
  using assms
  by (simp add: handleAudioChunk_def accountGap_eq playTimeOf_def Let_def trimLoop_eq)

lemma handleAudioChunk_unsynced:
  "\<not> isSynced (sync st) \<Longrightarrow> handleAudioChunk c currentTime st = st"
  by (simp add: handleAudioChunk_def)

lemma handleAudioChunk_cases:
  obtains (unsynced) "\<not> isSynced (sync st)" "handleAudioChunk c currentTime st = st"
  | (late) "isSynced (sync st)" "playTimeOf c st < currentTime"
      "buffer (handleAudioChunk c currentTime st) = buffer st"
  | (ontime) "isSynced (sync st)" "\<not> playTimeOf c st < currentTime"
      "buffer (handleAudioChunk c currentTime st)
         = drop (trimCount (insertSorted (buffer st) \<lparr> chunk = c, playTime = playTimeOf c st \<rparr>))
             (insertSorted (buffer st) \<lparr> chunk = c, playTime = playTimeOf c st \<rparr>)"
proof (cases "isSynced (sync st)")
  case False
  then show ?thesis using unsynced handleAudioChunk_unsynced by blast
next
  case True
  show ?thesis
  proof (cases "playTimeOf c st < currentTime")
    case lt: True
    show ?thesis using late [OF True lt] handleAudioChunk_late [OF True lt] by simp
  next
    case ge: False
    show ?thesis using ontime [OF True ge] handleAudioChunk_ontime [OF True ge] by simp
  qed
qed

lemma handleAudioChunk_sorted:
  assumes "sortedByPlayTime (buffer st)"
  shows "sortedByPlayTime (buffer (handleAudioChunk c currentTime st))"
proof (cases rule: handleAudioChunk_cases [of st c currentTime])
  case unsynced
  with assms show ?thesis by simp
next
  case late
  with assms show ?thesis by simp
next
  case ontime
  have "sorted (map playTime (insertSorted (buffer st) \<lparr> chunk = c, playTime = playTimeOf c st \<rparr>))"
    using assms by (simp add: sortedByPlayTime_def insertSorted_sorted)
  then show ?thesis
    unfolding ontime(3) sortedByPlayTime_def by (simp add: drop_map [symmetric] sorted_wrt_drop del: drop_map)
qed


lemma handleAudioChunk_member:
  assumes "f \<in> set (buffer (handleAudioChunk c currentTime st))"
  shows "f \<in> set (buffer st)
       \<or> (isSynced (sync st) \<and> f = \<lparr> chunk = c, playTime = playTimeOf c st \<rparr>
          \<and> currentTime \<le> playTimeOf c st)"
proof (cases rule: handleAudioChunk_cases [of st c currentTime])
  case unsynced
  with assms show ?thesis by simp
next
  case late
  with assms show ?thesis by simp
next
  case ontime
  from assms have "f \<in> set (insertSorted (buffer st) \<lparr> chunk = c, playTime = playTimeOf c st \<rparr>)"
    unfolding ontime(3) by (rule in_set_dropD)
  then show ?thesis using ontime(1,2) by (auto simp: set_insertSorted)
qed

subsection \<open>Events of the sink\<close>

lemma performSync_buffer: "buffer (performSync t st) = buffer st"
  by (simp add: performSync_def split: option.splits)

lemma sendReady_buffer: "buffer (sendReady st) = buffer st"
  by (simp add: sendReady_def split: option.splits)

lemma handleMessage_buffer:
  "buffer (handleMessage m clk st)
     = (case m of AUDIO_CHUNK c \<Rightarrow> buffer (handleAudioChunk c (clk 0) st) | _ \<Rightarrow> buffer st)"
  by (cases m) (simp_all add: handleMessage_def Let_def sendReady_buffer)

lemma clientEvent_buffer:
  "buffer (clientEvent ev st)
     = (case ev of OnMessage (AUDIO_CHUNK c) clk \<Rightarrow> buffer (handleAudioChunk c (clk 0) st)
        | _ \<Rightarrow> buffer st)"
proof (cases ev)
  case (OnMessage m clk)
  then show ?thesis by (cases m) (simp_all add: handleMessage_buffer)
qed (simp_all add: performSync_buffer cleanup_def setReadyState_def)

lemma clientEvent_sorted:
  "sortedByPlayTime (buffer st) \<Longrightarrow> sortedByPlayTime (buffer (clientEvent ev st))"
  unfolding clientEvent_buffer
  by (auto split: ClientEvent.splits Message.splits intro: handleAudioChunk_sorted)


lemma clientRun_Cons: "clientRun (ev # evs) st = clientRun evs (clientEvent ev st)"
  by (simp add: clientRun_def)

lemma clientRun_sorted:
  "sortedByPlayTime (buffer st) \<Longrightarrow> sortedByPlayTime (buffer (clientRun evs st))"
proof (induction evs arbitrary: st)
  case Nil
  then show ?case by (simp add: clientRun_def)
next
  case (Cons ev evs)
  then show ?case by (simp add: clientRun_Cons clientEvent_sorted)
qed


subsection \<open>A synced sink\<close>

lemma syncedSink_eq:
  "syncedSink =
     \<lparr> ws = Some \<lparr> readyState = OPEN, sent = [SYNC_REQUEST 0, CLIENT_READY ''client''] \<rparr>,
       sync = \<lparr> offset = 0, roundTripTime = 0, drift = Some 0,
                samples = [\<lparr> sample_offset = 0, sample_rtt = 0, sample_timestamp = 0 \<rparr>],
                lastSyncTime = 0, isSynced = True \<rparr>,
       buffer = [],
       playback = None,
       serverInfo = None,
       isConnected = True,
       isPlaying = False,
       lastSequence = - 1,
       droppedChunks = 0,
       lateChunks = 0,
       pendingSyncT1 = None,
       outputDevice = None \<rparr>"
  by (simp add: syncedSink_def constClock_def clientRun_def initialClientState_def setReadyState_def
      performSync_def wsSend_def handleMessage_def processSyncResponse_def sampleRtt_def
      sampleOffset_def fsub_def fadd_def fdiv_def round64_zero sliceLast_def
      CONFIG_syncSamples_def createSyncState_def
      calculateWeightedOffset_def calculateDrift_def sendReady_def Let_def)

lemma tie_example:
  "buffer (deliver [(emptyChunk 0 0, 0), (emptyChunk 0 1, 0)] syncedSink)
     = [\<lparr> chunk = emptyChunk 0 1, playTime = 60 \<rparr>, \<lparr> chunk = emptyChunk 0 0, playTime = 60 \<rparr>]"
  by (simp add: deliver_def syncedSink_eq handleAudioChunk_def accountGap_def toLocalTime_def
      fsub_def fadd_def round64_eval
      CONFIG_targetBufferMs_def CONFIG_maxBufferMs_def insertSorted_def searchLoop.simps
      trimLoop.simps emptyChunk_def)

subsection \<open>Streams of chunks\<close>








subsection \<open>Frames in the buffer\<close>

lemma clientEvent_member:
  assumes "f \<in> set (buffer (clientEvent ev st))"
  shows "f \<in> set (buffer st)
       \<or> (\<exists>c clk. ev = OnMessage (AUDIO_CHUNK c) clk \<and> chunk f = c \<and> clk 0 \<le> playTime f)"
proof (cases "\<exists>c clk. ev = OnMessage (AUDIO_CHUNK c) clk")
  case False
  then have "buffer (clientEvent ev st) = buffer st"
    unfolding clientEvent_buffer by (auto split: ClientEvent.splits Message.splits)
  with assms show ?thesis by simp
next
  case True
  then obtain c clk where ev: "ev = OnMessage (AUDIO_CHUNK c) clk" by blast
  from assms have "f \<in> set (buffer (handleAudioChunk c (clk 0) st))"
    by (simp add: ev handleMessage_def)
  from handleAudioChunk_member [OF this] show ?thesis using ev by auto
qed

lemma clientRun_member:
  "f \<in> set (buffer (clientRun evs st)) \<Longrightarrow>
   f \<in> set (buffer st)
   \<or> (\<exists>c clk. OnMessage (AUDIO_CHUNK c) clk \<in> set evs \<and> chunk f = c \<and> clk 0 \<le> playTime f)"
proof (induction evs arbitrary: st)
  case Nil
  then show ?case by (simp add: clientRun_def)
next
  case (Cons ev evs)
  from Cons.prems have "f \<in> set (buffer (clientRun evs (clientEvent ev st)))"
    by (simp add: clientRun_Cons)
  from Cons.IH [OF this] show ?case
  proof
    assume "f \<in> set (buffer (clientEvent ev st))"
    from clientEvent_member [OF this] show ?thesis by auto
  next
    assume "\<exists>c clk. OnMessage (AUDIO_CHUNK c) clk \<in> set evs \<and> chunk f = c \<and> clk 0 \<le> playTime f"
    then show ?thesis by auto
  qed
qed

subsection \<open>The stored descriptor\<close>

lemma handleAudioChunk_serverInfo:
  "handleAudioChunk c t (st\<lparr> serverInfo := x \<rparr>) = (handleAudioChunk c t st)\<lparr> serverInfo := x \<rparr>"
proof (cases "isSynced (sync st)")
  case False
  then show ?thesis by (simp add: handleAudioChunk_unsynced)
next
  case True
  show ?thesis
  proof (cases "playTimeOf c st < t")
    case lt: True
    then have "playTimeOf c (st\<lparr> serverInfo := x \<rparr>) < t" by (simp add: playTimeOf_def)
    then show ?thesis using True lt by (simp add: handleAudioChunk_late)
  next
    case ge: False
    then have "\<not> playTimeOf c (st\<lparr> serverInfo := x \<rparr>) < t" by (simp add: playTimeOf_def)
    then show ?thesis using True ge by (simp add: handleAudioChunk_ontime playTimeOf_def)
  qed
qed

lemma performSync_serverInfo:
  "performSync t (st\<lparr> serverInfo := x \<rparr>) = (performSync t st)\<lparr> serverInfo := x \<rparr>"
  by (simp add: performSync_def split: option.splits)

lemma sendReady_serverInfo:
  "sendReady (st\<lparr> serverInfo := x \<rparr>) = (sendReady st)\<lparr> serverInfo := x \<rparr>"
  by (simp add: sendReady_def split: option.splits)

lemma clientEvent_serverInfo:
  "clientEvent ev (st\<lparr> serverInfo := x \<rparr>)
     = (clientEvent ev st)\<lparr> serverInfo :=
          (case ev of OnMessage (SERVER_INFO info) clk \<Rightarrow> Some info | _ \<Rightarrow> x) \<rparr>"
proof (cases ev)
  case (OnOpen t)
  then show ?thesis
    by (simp add: setReadyState_def performSync_def split: option.splits)
next
  case (OnMessage m clk)
  show ?thesis
  proof (cases m)
    case (SYNC_RESPONSE r)
    then show ?thesis using OnMessage
      by (simp add: handleMessage_def Let_def sendReady_def split: option.splits)
  next
    case (AUDIO_CHUNK c)
    then show ?thesis using OnMessage
      by (simp add: handleMessage_def handleAudioChunk_serverInfo)
  qed (simp_all add: OnMessage handleMessage_def)
next
  case OnClose
  then show ?thesis by (simp add: setReadyState_def cleanup_def)
next
  case (Interval tc ts)
  then show ?thesis by (simp add: performSync_serverInfo)
qed

lemma clientRun_serverInfo:
  "clientRun evs (st\<lparr> serverInfo := x \<rparr>)
     = (clientRun evs st)\<lparr> serverInfo := serverInfo (clientRun evs (st\<lparr> serverInfo := x \<rparr>)) \<rparr>"
proof (induction evs arbitrary: st x)
  case Nil
  then show ?case by (simp add: clientRun_def)
next
  case (Cons ev evs)
  show ?case unfolding clientRun_Cons
    by (subst (1 2) clientEvent_serverInfo) (rule Cons.IH)
qed

subsection \<open>Worked examples\<close>

lemmas sink_eval =
  deliver_def handleAudioChunk_def accountGap_def toLocalTime_def playTimeOf_def
  fsub_def fadd_def round64_eval
  CONFIG_targetBufferMs_def CONFIG_maxBufferMs_def insertSorted_def searchLoop.simps
  trimLoop.simps emptyChunk_def


lemma one_frame_example:
  "deliver [(emptyChunk 0 0, 0)] syncedSink
     = syncedSink\<lparr> buffer := [\<lparr> chunk = emptyChunk 0 0, playTime = 60 \<rparr>], lastSequence := 0 \<rparr>"
  by (simp add: syncedSink_eq sink_eval)





lemma late_example:
  "handleAudioChunk (emptyChunk 0 0) 65 syncedSink
     = syncedSink\<lparr> lastSequence := 0, lateChunks := 1 \<rparr>"
  by (simp add: syncedSink_eq sink_eval)

lemma boundary_example:
  "handleAudioChunk (emptyChunk 0 0) 60 syncedSink
     = syncedSink\<lparr> buffer := [\<lparr> chunk = emptyChunk 0 0, playTime = 60 \<rparr>], lastSequence := 0 \<rparr>"
  by (simp add: syncedSink_eq sink_eval)


subsection \<open>The claims about the sink\<close>

text \<open>
  \<^bold>\<open>C3.\<close> If the buffer is in ascending order of \<^verbatim>\<open>playTime\<close>, it still is
  after \<^verbatim>\<open>handleAudioChunk\<close> and after any run of the sink's callbacks; and
  \<^verbatim>\<open>insertSorted\<close> places a frame after the buffered frames whose \<^verbatim>\<open>playTime\<close> is
  smaller and in front of all others, so in front of the frames of equal \<^verbatim>\<open>playTime\<close>
  whatever their sequence numbers.
\<close>

theorem buffer_sorted_by_playTime:
  assumes "sortedByPlayTime (buffer st)"
  shows "sortedByPlayTime (buffer (handleAudioChunk c currentTime st))
       \<and> sortedByPlayTime (buffer (clientRun evs st))
       \<and> insertSorted (buffer st) item
           = takeWhile (\<lambda>b. playTime b < playTime item) (buffer st)
             @ item # dropWhile (\<lambda>b. playTime b < playTime item) (buffer st)"
  using assms handleAudioChunk_sorted [OF assms] clientRun_sorted [OF assms]
    insertSorted_placement [of "buffer st" item]
  by (simp add: sortedByPlayTime_def)

theorem buffer_sorted_by_playTime_witness:
  "sortedByPlayTime (buffer (deliver [(emptyChunk 0 0, 0)] syncedSink))
   \<and> sortedByPlayTime (buffer (handleAudioChunk (emptyChunk 100 1) 0
                                  (deliver [(emptyChunk 0 0, 0)] syncedSink)))
   \<and> sortedByPlayTime (buffer (clientRun [OnMessage (AUDIO_CHUNK (emptyChunk 100 1)) (constClock 0)]
                                  (deliver [(emptyChunk 0 0, 0)] syncedSink)))
   \<and> insertSorted (buffer (deliver [(emptyChunk 0 0, 0)] syncedSink))
        \<lparr> chunk = emptyChunk 0 1, playTime = 60 \<rparr>
       = [\<lparr> chunk = emptyChunk 0 1, playTime = 60 \<rparr>, \<lparr> chunk = emptyChunk 0 0, playTime = 60 \<rparr>]"
proof -
  have h: "sortedByPlayTime (buffer (deliver [(emptyChunk 0 0, 0)] syncedSink))"
    by (simp add: one_frame_example sortedByPlayTime_def)
  show ?thesis
    using h buffer_sorted_by_playTime [OF h, of "emptyChunk 100 1" 0
        "[OnMessage (AUDIO_CHUNK (emptyChunk 100 1)) (constClock 0)]"
        "\<lparr> chunk = emptyChunk 0 1, playTime = 60 \<rparr>"]
    by (simp add: one_frame_example)
qed

text \<open>
  The order with ties broken by sequence number does not hold: two chunks with sequence
  numbers 0 and 1 and the same \<^verbatim>\<open>playTime\<close>, delivered in that order, are buffered as
  1 before 0.
\<close>

theorem sequence_ties_counterexample:
  "\<not> orderedWithSequenceTies
       (buffer (deliver [(emptyChunk 0 0, 0), (emptyChunk 0 1, 0)] syncedSink))"
  unfolding tie_example by (simp add: orderedWithSequenceTies_def emptyChunk_def)




text \<open>
  \<^bold>\<open>C5.\<close> On a synced sink, \<^verbatim>\<open>handleAudioChunk\<close> computes
  \<open>playTime = timestamp - offset + targetBufferMs\<close> with \<open>targetBufferMs = 60\<close>. If
  \<open>playTime < currentTime\<close> the buffer is left as it is and \<^verbatim>\<open>lateChunks\<close> grows by one;
  otherwise \<^verbatim>\<open>lateChunks\<close> is unchanged. Every frame of the resulting buffer was there
  before or is the new frame, whose \<open>playTime\<close> is at least \<open>currentTime\<close>. After any run
  of callbacks, every frame of the buffer was there at the start or came with an audio
  chunk of the run whose clock reading was at most the frame's \<open>playTime\<close>.
\<close>

theorem late_chunks_discarded:
  assumes "isSynced (sync st)"
  shows "playTimeOf c st = fadd (fsub (timestamp c) (offset (sync st))) 60
       \<and> (playTimeOf c st < currentTime \<longrightarrow>
            buffer (handleAudioChunk c currentTime st) = buffer st
            \<and> lateChunks (handleAudioChunk c currentTime st) = lateChunks st + 1)
       \<and> (\<not> playTimeOf c st < currentTime \<longrightarrow>
            lateChunks (handleAudioChunk c currentTime st) = lateChunks st)
       \<and> (\<forall>f \<in> set (buffer (handleAudioChunk c currentTime st)).
            f \<in> set (buffer st)
            \<or> (f = \<lparr> chunk = c, playTime = playTimeOf c st \<rparr> \<and> currentTime \<le> playTime f))
       \<and> (\<forall>f \<in> set (buffer (clientRun evs st)).
            f \<in> set (buffer st)
            \<or> (\<exists>c' clk. OnMessage (AUDIO_CHUNK c') clk \<in> set evs
                  \<and> chunk f = c' \<and> clk 0 \<le> playTime f))"
proof -
  have a: "playTimeOf c st = fadd (fsub (timestamp c) (offset (sync st))) 60"
    by (simp add: playTimeOf_def toLocalTime_def CONFIG_targetBufferMs_def)
  have b: "\<forall>f \<in> set (buffer (handleAudioChunk c currentTime st)).
            f \<in> set (buffer st)
            \<or> (f = \<lparr> chunk = c, playTime = playTimeOf c st \<rparr> \<and> currentTime \<le> playTime f)"
  proof
    fix f assume "f \<in> set (buffer (handleAudioChunk c currentTime st))"
    from handleAudioChunk_member [OF this]
    show "f \<in> set (buffer st)
        \<or> (f = \<lparr> chunk = c, playTime = playTimeOf c st \<rparr> \<and> currentTime \<le> playTime f)"
      by auto
  qed
  have d: "\<forall>f \<in> set (buffer (clientRun evs st)).
            f \<in> set (buffer st)
            \<or> (\<exists>c' clk. OnMessage (AUDIO_CHUNK c') clk \<in> set evs
                  \<and> chunk f = c' \<and> clk 0 \<le> playTime f)"
    using clientRun_member [of _ evs st] by blast
  show ?thesis
    using a b d assms by (simp add: handleAudioChunk_late handleAudioChunk_ontime)
qed

theorem late_chunks_discarded_witness:
  "isSynced (sync syncedSink)
   \<and> playTimeOf (emptyChunk 0 0) syncedSink = 60
   \<and> buffer (handleAudioChunk (emptyChunk 0 0) 65 syncedSink) = []
   \<and> lateChunks (handleAudioChunk (emptyChunk 0 0) 65 syncedSink) = 1"
proof -
  have h: "isSynced (sync syncedSink)" by (simp add: syncedSink_eq)
  show ?thesis
    using h late_chunks_discarded [OF h, of "emptyChunk 0 0" 65 "[]"]
    by (simp add: syncedSink_eq emptyChunk_def fsub_def fadd_def round64_eval)
qed

text \<open>
  A chunk whose \<^verbatim>\<open>playTime\<close> is 60 and that arrives at local time 60 is inserted: at its
  insertion its \<^verbatim>\<open>playTime\<close> is not greater than the local time. And a chunk that
  arrives at local time 1000 on a sink that is not synced is not counted as late,
  although the \<^verbatim>\<open>playTime\<close> it would get is 60.
\<close>

theorem insertion_at_deadline_counterexample:
  "buffer (handleAudioChunk (emptyChunk 0 0) 60 syncedSink)
     = [\<lparr> chunk = emptyChunk 0 0, playTime = 60 \<rparr>]
   \<and> \<not> playTime (hd (buffer (handleAudioChunk (emptyChunk 0 0) 60 syncedSink))) > 60
   \<and> playTimeOf (emptyChunk 0 0) (initialClientState None) < 1000
   \<and> lateChunks (handleAudioChunk (emptyChunk 0 0) 1000 (initialClientState None))
       = lateChunks (initialClientState None)"
proof -
  have "\<not> isSynced (sync (initialClientState None))"
    by (simp add: initialClientState_def createSyncState_def)
  then have "handleAudioChunk (emptyChunk 0 0) 1000 (initialClientState None)
           = initialClientState None"
    by (rule handleAudioChunk_unsynced)
  moreover have "playTimeOf (emptyChunk 0 0) (initialClientState None) < 1000"
    by (simp add: playTimeOf_def toLocalTime_def initialClientState_def createSyncState_def
        CONFIG_targetBufferMs_def emptyChunk_def fsub_def fadd_def round64_eval)
  ultimately show ?thesis by (simp add: boundary_example)
qed




text \<open>
  \<^bold>\<open>C8.\<close> On \<^verbatim>\<open>server_info\<close> the sink stores the descriptor and does nothing
  else: whatever constants it announces, the session is closed afterwards only if it was
  before; and the stored descriptor has no effect on any later callback, only on the
  stored descriptor itself.
\<close>

theorem server_info_stored_unchecked:
  "handleMessage (SERVER_INFO info) clk st = st\<lparr> serverInfo := Some info \<rparr>
   \<and> sessionClosed (handleMessage (SERVER_INFO info) clk st) = sessionClosed st
   \<and> isConnected (handleMessage (SERVER_INFO info) clk st) = isConnected st
   \<and> clientRun evs (st\<lparr> serverInfo := x \<rparr>)
       = (clientRun evs st)\<lparr> serverInfo := serverInfo (clientRun evs (st\<lparr> serverInfo := x \<rparr>)) \<rparr>"
  using clientRun_serverInfo [where evs = evs and st = st and x = x]
  by (simp add: handleMessage_def sessionClosed_def)

text \<open>
  A descriptor that announces 44100 Hz differs from the configured constants, and the
  sink that receives it keeps its session open and goes on to sync.
\<close>

theorem mismatching_descriptor_counterexample:
  "\<not> matchesConfig \<lparr> sampleRate = 44100, channels = 2, bitDepth = 16, chunkDurationMs = 20,
                      serverStartTime = 0 \<rparr>
   \<and> \<not> sessionClosed
         (clientRun
            [OnOpen 0,
             OnMessage (SERVER_INFO \<lparr> sampleRate = 44100, channels = 2, bitDepth = 16,
                                      chunkDurationMs = 20, serverStartTime = 0 \<rparr>) (constClock 0),
             OnMessage (SYNC_RESPONSE \<lparr> t1 = 0, t2 = 0, t3 = 0 \<rparr>) (constClock 0)]
            (initialClientState None))
   \<and> isSynced (sync
         (clientRun
            [OnOpen 0,
             OnMessage (SERVER_INFO \<lparr> sampleRate = 44100, channels = 2, bitDepth = 16,
                                      chunkDurationMs = 20, serverStartTime = 0 \<rparr>) (constClock 0),
             OnMessage (SYNC_RESPONSE \<lparr> t1 = 0, t2 = 0, t3 = 0 \<rparr>) (constClock 0)]
            (initialClientState None)))"
  by (simp add: matchesConfig_def CONFIG_sampleRate_def sessionClosed_def clientRun_def constClock_def
      initialClientState_def setReadyState_def performSync_def wsSend_def handleMessage_def
      processSyncResponse_def sendReady_def Let_def)

text \<open>
  \<^bold>\<open>C10.\<close> While the sink is not synced, \<^verbatim>\<open>handleAudioChunk\<close> returns the state it was
  given: buffer, \<^verbatim>\<open>lastSequence\<close>, \<^verbatim>\<open>droppedChunks\<close>, \<^verbatim>\<open>lateChunks\<close> and everything else
  are unchanged.
\<close>

theorem unsynced_chunk_ignored:
  "\<not> isSynced (sync state) \<Longrightarrow> handleAudioChunk c currentTime state = state"
  by (simp add: handleAudioChunk_def)

theorem unsynced_chunk_ignored_witness:
  "\<not> isSynced (sync (initialClientState None))
   \<and> handleAudioChunk (emptyChunk 0 7) 1000 (initialClientState None) = initialClientState None"
proof -
  have h: "\<not> isSynced (sync (initialClientState None))"
    by (simp add: initialClientState_def createSyncState_def)
  show ?thesis using h unsynced_chunk_ignored [OF h, of "emptyChunk 0 7" 1000] by simp
qed

section \<open>Properties of the wire codec\<close>


















end
